theory Spec2Isabelle
  imports Complex_Main "HOL-Library.Multiset" "HOL-Library.AList"
begin

section \<open>Data model of the map dashboard\<close>

text \<open>
  The embedding follows \<^verbatim>\<open>src/components/InteractiveMapDashboard.tsx\<close>.

  Conventions.
  \<^item> A JavaScript number holding Unix milliseconds is an \<open>int\<close>; a number that may be
    \<^verbatim>\<open>NaN\<close> (the result of \<^verbatim>\<open>new Date(s).getTime()\<close>) is an \<open>int option\<close>, \<open>None\<close>
    being \<^verbatim>\<open>NaN\<close>. Every comparison with \<^verbatim>\<open>NaN\<close> is false.
  \<^item> An optional field (\<^verbatim>\<open>title?: string\<close>) is an \<open>option\<close>, \<open>None\<close> being
    \<^verbatim>\<open>undefined\<close>.
  \<^item> Coordinates are finite and modelled as \<open>real\<close>; \<^verbatim>\<open>Math.floor\<close> is \<open>floor\<close>.
  \<^item> Strings are byte strings; \<^verbatim>\<open>toLowerCase\<close> and the regular-expression class
    \<^verbatim>\<open>\s\<close> are modelled on ASCII.
  \<^item> The built-in \<^verbatim>\<open>Date\<close> parser, \<^verbatim>\<open>Date.prototype.toISOString\<close> on a valid
    date and \<^verbatim>\<open>String\<close> on a number are parameters of the functions that call them.
\<close>

datatype HazardStatus = unverified | under_review | verified | false_alarm

datatype HazardSource = citizen | sensor | social | official | other

text \<open>
  \<^verbatim>\<open>ActiveFilters\<close>. The union \<^verbatim>\<open>HazardStatus | "all"\<close> is an option whose \<open>None\<close> is
  \<^verbatim>\<open>"all"\<close>; \<^verbatim>\<open>hazardType\<close> is a plain string compared with \<^verbatim>\<open>"all"\<close>.
\<close>

record ActiveFilters =
  hazardType :: string
  status :: "HazardStatus option"
  source :: "HazardSource option"
  timeStart :: "int option"
  timeEnd :: "int option"
  heatmap :: bool
  clustering :: bool
  tagsQuery :: "string option"

record HazardReport =
  id_field :: string
  lat :: real
  lng :: real
  type_field :: string
  status :: HazardStatus
  source :: HazardSource
  timestamp :: string
  description :: "string option"
  mediaUrls :: "string list option"
  title :: "string option"
  tags :: "string list option"
  personName :: "string option"
  locationName :: "string option"

type_synonym date_parse = "string \<Rightarrow> int option"

record TimeDomain =
  min_t :: int
  max_t :: int

section \<open>Temporal domain\<close>

text \<open>
  The loop of \<^verbatim>\<open>timeDomain\<close>: \<open>min\<close> starts at \<^verbatim>\<open>Infinity\<close> and \<open>max\<close> at
  \<^verbatim>\<open>-Infinity\<close>, both written \<open>None\<close> here; a timestamp that is not finite is skipped.
\<close>

definition domainStep :: "date_parse \<Rightarrow> int option \<times> int option \<Rightarrow> HazardReport
    \<Rightarrow> int option \<times> int option" where
  "domainStep parse acc r =
     (case parse (timestamp r) of
        None \<Rightarrow> acc
      | Some t \<Rightarrow>
          ((case fst acc of None \<Rightarrow> Some t | Some m \<Rightarrow> if t < m then Some t else Some m),
           (case snd acc of None \<Rightarrow> Some t | Some m \<Rightarrow> if t > m then Some t else Some m)))"

definition timeDomain :: "date_parse \<Rightarrow> HazardReport list \<Rightarrow> TimeDomain option" where
  "timeDomain parse reports =
     (if reports = [] then None
      else case foldl (domainStep parse) (None, None) reports of
             (Some mn, Some mx) \<Rightarrow> Some \<lparr>min_t = mn, max_t = mx\<rparr>
           | _ \<Rightarrow> None)"

section \<open>Filter evaluator\<close>

definition lower_char :: "char \<Rightarrow> char" where
  "lower_char c =
     (let n = (of_char c :: nat) in if 65 \<le> n \<and> n \<le> 90 then char_of (n + 32) else c)"

definition toLowerCase :: "string \<Rightarrow> string" where
  "toLowerCase s = map lower_char s"

definition is_space :: "char \<Rightarrow> bool" where
  "is_space c = (let n = (of_char c :: nat) in n = 32 \<or> (9 \<le> n \<and> n \<le> 13))"

definition is_sep :: "char \<Rightarrow> bool" where
  "is_sep c = (c = CHR '','' \<or> is_space c)"

definition trim :: "string \<Rightarrow> string" where
  "trim s = rev (dropWhile is_space (rev (dropWhile is_space s)))"

text \<open>
  \<^verbatim>\<open>s.split(/[\,\s]+/)\<close>: the pieces between maximal runs of separators, the empty
  pieces at both ends included; the empty string gives one empty piece.
\<close>

fun split_sep :: "string \<Rightarrow> string list" where
  "split_sep [] = [[]]"
| "split_sep [c] = (if is_sep c then [[], []] else [[c]])"
| "split_sep (c # d # ds) =
     (if is_sep c then
        (if is_sep d then split_sep (d # ds) else [] # split_sep (d # ds))
      else
        (case split_sep (d # ds) of
           [] \<Rightarrow> [[c]]
         | p # ps \<Rightarrow> (c # p) # ps))"

definition needles_of :: "string \<Rightarrow> string list" where
  "needles_of q = filter (\<lambda>s. s \<noteq> []) (split_sep (toLowerCase q))"

definition tagsPass :: "string option \<Rightarrow> HazardReport \<Rightarrow> bool" where
  "tagsPass tq r =
     (case tq of
        None \<Rightarrow> True
      | Some q \<Rightarrow>
          if q \<noteq> [] \<and> length (trim q) > 0 then
            (let needles = needles_of q in
             if needles \<noteq> [] then
               (let hay = map toLowerCase (case tags r of None \<Rightarrow> [] | Some ts \<Rightarrow> ts)
                in list_all (\<lambda>n. n \<in> set hay) needles)
             else True)
          else True)"

text \<open>\<^verbatim>\<open>bound && t0 < bound\<close>: the bound is skipped when undefined or \<open>0\<close>.\<close>

definition below_start :: "int option \<Rightarrow> int option \<Rightarrow> bool" where
  "below_start bound t0 =
     (case bound of
        None \<Rightarrow> False
      | Some b \<Rightarrow> b \<noteq> 0 \<and> (case t0 of None \<Rightarrow> False | Some t \<Rightarrow> t < b))"

definition above_end :: "int option \<Rightarrow> int option \<Rightarrow> bool" where
  "above_end bound t0 =
     (case bound of
        None \<Rightarrow> False
      | Some b \<Rightarrow> b \<noteq> 0 \<and> (case t0 of None \<Rightarrow> False | Some t \<Rightarrow> t > b))"

text \<open>\<^verbatim>\<open>timeline != null && t0 > timeline\<close>: a cursor of \<open>0\<close> is still a cursor.\<close>

definition after_cursor :: "int option \<Rightarrow> int option \<Rightarrow> bool" where
  "after_cursor timeline t0 =
     (case timeline of
        None \<Rightarrow> False
      | Some c \<Rightarrow> (case t0 of None \<Rightarrow> False | Some t \<Rightarrow> t > c))"

text \<open>The callback given to \<^verbatim>\<open>reports.filter\<close>.\<close>

definition keepReport :: "date_parse \<Rightarrow> ActiveFilters \<Rightarrow> int option \<Rightarrow> HazardReport \<Rightarrow> bool" where
  "keepReport parse filters timeline r =
     (if hazardType filters \<noteq> ''all'' \<and> type_field r \<noteq> hazardType filters then False
      else if (case ActiveFilters.status filters of None \<Rightarrow> False | Some s \<Rightarrow> status r \<noteq> s)
        then False
      else if (case ActiveFilters.source filters of None \<Rightarrow> False | Some s \<Rightarrow> source r \<noteq> s)
        then False
      else
        (let t0 = parse (timestamp r) in
         if below_start (timeStart filters) t0 then False
         else if above_end (timeEnd filters) t0 then False
         else if after_cursor timeline t0 then False
         else if \<not> tagsPass (tagsQuery filters) r then False
         else True))"

definition filteredReports :: "date_parse \<Rightarrow> HazardReport list \<Rightarrow> ActiveFilters \<Rightarrow> int option
    \<Rightarrow> HazardReport list" where
  "filteredReports parse reports filters timeline =
     filter (keepReport parse filters timeline) reports"

text \<open>The initial \<^verbatim>\<open>useState\<close> values of the filters and of the timeline cursor.\<close>

definition initialFilters :: "TimeDomain option \<Rightarrow> bool \<Rightarrow> bool \<Rightarrow> ActiveFilters" where
  "initialFilters td defaultHeatmap defaultCluster =
     \<lparr>hazardType = ''all'', ActiveFilters.status = None, ActiveFilters.source = None,
      timeStart = map_option min_t td, timeEnd = map_option max_t td,
      heatmap = defaultHeatmap, clustering = defaultCluster, tagsQuery = Some ''''\<rparr>"

definition initialTimeline :: "TimeDomain option \<Rightarrow> int option" where
  "initialTimeline td = map_option max_t td"

text \<open>
  A date parser for the examples: it knows four ISO strings and rejects everything else,
  as \<^verbatim>\<open>new Date\<close> rejects \<^verbatim>\<open>"invalid"\<close>.
\<close>

definition sampleParse :: date_parse where
  "sampleParse s =
     (if s = ''1969-12-31T23:59:59.000Z'' then Some (- 1000)
      else if s = ''1970-01-01T00:00:00.000Z'' then Some 0
      else if s = ''1970-01-01T00:00:01.000Z'' then Some 1000
      else if s = ''1970-01-02T00:00:00.000Z'' then Some 86400000
      else None)"

definition sampleReport :: "string \<Rightarrow> real \<Rightarrow> real \<Rightarrow> HazardStatus \<Rightarrow> string
    \<Rightarrow> string list option \<Rightarrow> HazardReport" where
  "sampleReport i la lo st ts tg =
     \<lparr>id_field = i, lat = la, lng = lo, type_field = ''flood'', status = st,
      source = citizen, timestamp = ts, description = None, mediaUrls = None,
      title = None, tags = tg, personName = None, locationName = None\<rparr>"

definition reportA :: HazardReport where
  "reportA = sampleReport ''r1'' 10 10 verified ''1970-01-01T00:00:00.000Z''
     (Some [''Flood'', ''coast''])"

definition reportB :: HazardReport where
  "reportB = sampleReport ''r2'' 10.01 10.01 unverified ''1970-01-02T00:00:00.000Z''
     (Some [''flood''])"

definition reportC :: HazardReport where
  "reportC = sampleReport ''r3'' 50 50 verified ''invalid'' None"

definition reportD :: HazardReport where
  "reportD = sampleReport ''r4'' 50 50 under_review ''1969-12-31T23:59:59.000Z'' None"

definition sampleReports :: "HazardReport list" where
  "sampleReports = [reportA, reportB, reportC]"

definition boundedFilters :: ActiveFilters where
  "boundedFilters =
     (initialFilters None False True)\<lparr>timeStart := Some 1000, timeEnd := Some 86400000\<rparr>"

section \<open>Timeline replay\<close>

record Replay =
  timeline :: "int option"
  isPlaying :: bool

definition playStep :: "TimeDomain \<Rightarrow> int" where
  "playStep d = max 1 ((max_t d - min_t d) div 120)"

text \<open>The updater passed to \<^verbatim>\<open>setTimeline\<close> by the interval callback.\<close>

definition advance :: "TimeDomain \<Rightarrow> Replay \<Rightarrow> Replay" where
  "advance d st =
     (case timeline st of
        None \<Rightarrow> st\<lparr>timeline := Some (min_t d)\<rparr>
      | Some prev \<Rightarrow>
          (let next = prev + playStep d in
           if next \<ge> max_t d then st\<lparr>timeline := Some (max_t d), isPlaying := False\<rparr>
           else st\<lparr>timeline := Some next\<rparr>))"

text \<open>
  One firing of the interval. The effect installs no interval unless the dashboard is
  playing, the domain is non-null and the cursor is non-null.
\<close>

definition tick :: "TimeDomain option \<Rightarrow> Replay \<Rightarrow> Replay" where
  "tick td st =
     (case td of
        None \<Rightarrow> st
      | Some d \<Rightarrow> if \<not> isPlaying st \<or> timeline st = None then st else advance d st)"

definition sampleDomain :: TimeDomain where
  "sampleDomain = \<lparr>min_t = 0, max_t = 86400000\<rparr>"

definition sampleReplay :: "int \<Rightarrow> Replay" where
  "sampleReplay c = \<lparr>timeline = Some c, isPlaying = True\<rparr>"

section \<open>Spatial bucketing\<close>

text \<open>
  The key \<^verbatim>\<open>`${gx}:${gy}`\<close> of a grid cell is modelled by the pair \<open>(gx, gy)\<close>. A
  JavaScript \<^verbatim>\<open>Map\<close> keeps insertion order: it is an association list, \<^verbatim>\<open>get\<close> is
  \<open>map_of\<close> and \<^verbatim>\<open>set\<close> is \<open>AList.update\<close> (in place for a known key, at the end for a
  new one).
\<close>

definition cellOf :: "real \<Rightarrow> HazardReport \<Rightarrow> int \<times> int" where
  "cellOf gridSize r = (\<lfloor>lng r / gridSize\<rfloor>, \<lfloor>lat r / gridSize\<rfloor>)"

subsection \<open>Heatmap\<close>

record HeatBucket =
  hb_lat :: real
  hb_lng :: real
  hb_count :: nat

record HeatPoint =
  hp_lat :: real
  hp_lng :: real
  weight :: real

definition heatAdd :: "real \<Rightarrow> ((int \<times> int) \<times> HeatBucket) list \<Rightarrow> HazardReport
    \<Rightarrow> ((int \<times> int) \<times> HeatBucket) list" where
  "heatAdd gridSize buckets r =
     (let key = cellOf gridSize r;
          centerLng = (real_of_int (fst key) + 0.5) * gridSize;
          centerLat = (real_of_int (snd key) + 0.5) * gridSize
      in case map_of buckets key of
           Some b \<Rightarrow> AList.update key (b\<lparr>hb_count := hb_count b + 1\<rparr>) buckets
         | None \<Rightarrow>
             AList.update key \<lparr>hb_lat = centerLat, hb_lng = centerLng, hb_count = 1\<rparr> buckets)"

definition heatPoints :: "bool \<Rightarrow> HazardReport list \<Rightarrow> HeatPoint list" where
  "heatPoints heatmapOn filtered =
     (if \<not> heatmapOn then []
      else
        (let gridSize = 0.25;
             buckets = foldl (heatAdd gridSize) [] filtered;
             mx = foldl (\<lambda>m b. max m (hb_count b)) 0 (map snd buckets)
         in if mx = 0 then []
            else map (\<lambda>b. \<lparr>hp_lat = hb_lat b, hp_lng = hb_lng b,
                            weight = real (hb_count b) / real mx\<rparr>) (map snd buckets)))"

subsection \<open>Dominant status of a cluster\<close>

definition countStatuses :: "HazardReport list \<Rightarrow> HazardStatus \<Rightarrow> nat" where
  "countStatuses items_list =
     foldl (\<lambda>counts r. counts(status r := counts (status r) + 1)) (\<lambda>_. 0) items_list"

text \<open>
  \<^verbatim>\<open>Object.keys(counts)\<close> lists the keys in the order the literal gives them, and
  \<^verbatim>\<open>reduce\<close> without an initial value starts from the first key.
\<close>

definition statusKeys :: "HazardStatus list" where
  "statusKeys = [unverified, under_review, verified, false_alarm]"

definition dominantStatusIn :: "HazardReport list \<Rightarrow> HazardStatus" where
  "dominantStatusIn items_list =
     (let counts = countStatuses items_list
      in foldl (\<lambda>a b. if counts a \<ge> counts b then a else b) (hd statusKeys) (tl statusKeys))"

definition statusToColor :: "HazardStatus \<Rightarrow> string" where
  "statusToColor s =
     (case s of
        unverified \<Rightarrow> ''#f59e0b''
      | under_review \<Rightarrow> ''#0ea5e9''
      | verified \<Rightarrow> ''#10b981''
      | false_alarm \<Rightarrow> ''#ef4444'')"

subsection \<open>Clustered markers\<close>

record ClusterBucket =
  cb_lat :: real
  cb_lng :: real
  items :: "HazardReport list"

definition clusterAdd :: "real \<Rightarrow> ((int \<times> int) \<times> ClusterBucket) list \<Rightarrow> HazardReport
    \<Rightarrow> ((int \<times> int) \<times> ClusterBucket) list" where
  "clusterAdd gridSize buckets r =
     (let key = cellOf gridSize r;
          centerLng = (real_of_int (fst key) + 0.5) * gridSize;
          centerLat = (real_of_int (snd key) + 0.5) * gridSize
      in case map_of buckets key of
           None \<Rightarrow>
             AList.update key \<lparr>cb_lat = centerLat, cb_lng = centerLng, items = [r]\<rparr> buckets
         | Some b \<Rightarrow> AList.update key (b\<lparr>items := items b @ [r]\<rparr>) buckets)"

definition clusterBuckets :: "HazardReport list \<Rightarrow> ((int \<times> int) \<times> ClusterBucket) list" where
  "clusterBuckets reports = foldl (clusterAdd 0.06) [] reports"

text \<open>
  What is drawn for one bucket: the report itself when the bucket holds one report,
  otherwise a cluster pin at the centre of the cell showing the member count, with its
  pixel size, its colour and the first ten members in its popup.
\<close>

datatype Marker =
  IndividualMarker HazardReport
| ClusterMarker (cm_lat: real) (cm_lng: real) (cm_count: nat) (cm_size: nat)
    (cm_color: string) (cm_popup: "HazardReport list")

definition markerOf :: "ClusterBucket \<Rightarrow> Marker" where
  "markerOf bucket =
     (let count = length (items bucket)
      in case items bucket of
           [r] \<Rightarrow> IndividualMarker r
         | _ \<Rightarrow>
             ClusterMarker (cb_lat bucket) (cb_lng bucket) count (24 + min 18 count)
               (statusToColor (dominantStatusIn (items bucket))) (take 10 (items bucket)))"

text \<open>\<open>None\<close> is the \<^verbatim>\<open>null\<close> returned while the map library is not loaded.\<close>

definition renderClusteredMarkers :: "bool \<Rightarrow> HazardReport list \<Rightarrow> Marker list option" where
  "renderClusteredMarkers L reports =
     (if \<not> L then None else Some (map markerOf (map snd (clusterBuckets reports))))"

fun markerCount :: "Marker \<Rightarrow> nat" where
  "markerCount (IndividualMarker r) = 1"
| "markerCount (ClusterMarker la lo n sz col pop) = n"

section \<open>CSV export\<close>

datatype js_error = RangeError

definition safe :: "string option \<Rightarrow> string" where
  "safe v = (case v of None \<Rightarrow> [] | Some s \<Rightarrow> s)"

text \<open>\<^verbatim>\<open>s.replace(/"/g, '""')\<close>; \<open>CHR 0x22\<close> is the double quote, \<open>CHR 0x0A\<close> the newline.\<close>

definition doubleQuotes :: "string \<Rightarrow> string" where
  "doubleQuotes s = concat (map (\<lambda>c. if c = CHR 0x22 then [CHR 0x22, CHR 0x22] else [c]) s)"

definition csvEscape :: "string \<Rightarrow> string" where
  "csvEscape s =
     (if CHR '','' \<in> set s \<or> CHR 0x0A \<in> set s \<or> CHR 0x22 \<in> set s
      then [CHR 0x22] @ doubleQuotes s @ [CHR 0x22]
      else s)"

text \<open>\<^verbatim>\<open>Array.prototype.join\<close>.\<close>

fun join :: "string \<Rightarrow> string list \<Rightarrow> string" where
  "join sep [] = []"
| "join sep [x] = x"
| "join sep (x # y # ys) = x @ sep @ join sep (y # ys)"

definition statusString :: "HazardStatus \<Rightarrow> string" where
  "statusString s =
     (case s of
        unverified \<Rightarrow> ''unverified''
      | under_review \<Rightarrow> ''under_review''
      | verified \<Rightarrow> ''verified''
      | false_alarm \<Rightarrow> ''false_alarm'')"

definition sourceString :: "HazardSource \<Rightarrow> string" where
  "sourceString s =
     (case s of
        citizen \<Rightarrow> ''citizen''
      | sensor \<Rightarrow> ''sensor''
      | social \<Rightarrow> ''social''
      | official \<Rightarrow> ''official''
      | other \<Rightarrow> ''other'')"

definition headers :: "string list" where
  "headers = [''id'', ''title'', ''type'', ''status'', ''source'', ''timestamp'', ''lat'',
     ''lng'', ''locationName'', ''personName'', ''tags'', ''description'']"

text \<open>
  \<^verbatim>\<open>new Date(s).toISOString()\<close> throws a \<^verbatim>\<open>RangeError\<close> on an invalid date; \<open>toISO\<close>
  is its result on a valid one.
\<close>

definition toISOString :: "date_parse \<Rightarrow> (int \<Rightarrow> string) \<Rightarrow> string \<Rightarrow> js_error + string" where
  "toISOString parse toISO s =
     (case parse s of None \<Rightarrow> Inl RangeError | Some t \<Rightarrow> Inr (toISO t))"

text \<open>The cells of one row, each already passed through \<^verbatim>\<open>String\<close>.\<close>

definition rowOf :: "date_parse \<Rightarrow> (int \<Rightarrow> string) \<Rightarrow> (real \<Rightarrow> string) \<Rightarrow> HazardReport
    \<Rightarrow> js_error + string list" where
  "rowOf parse toISO numStr r =
     (case toISOString parse toISO (timestamp r) of
        Inl e \<Rightarrow> Inl e
      | Inr isoText \<Rightarrow>
          Inr [id_field r, safe (title r), type_field r, statusString (status r),
               sourceString (source r), isoText, numStr (lat r), numStr (lng r),
               safe (locationName r), safe (personName r),
               join ''|'' (case tags r of None \<Rightarrow> [] | Some ts \<Rightarrow> ts),
               safe (description r)])"

text \<open>\<^verbatim>\<open>filteredReports.map\<close>: the first exception ends the loop.\<close>

fun rowsOf :: "date_parse \<Rightarrow> (int \<Rightarrow> string) \<Rightarrow> (real \<Rightarrow> string) \<Rightarrow> HazardReport list
    \<Rightarrow> js_error + string list list" where
  "rowsOf parse toISO numStr [] = Inr []"
| "rowsOf parse toISO numStr (r # rs) =
     (case rowOf parse toISO numStr r of
        Inl e \<Rightarrow> Inl e
      | Inr row \<Rightarrow>
          (case rowsOf parse toISO numStr rs of
             Inl e \<Rightarrow> Inl e
           | Inr rows \<Rightarrow> Inr (row # rows)))"

text \<open>The text handed to the \<^verbatim>\<open>Blob\<close>, or the exception the handler throws.\<close>

definition exportCSV :: "date_parse \<Rightarrow> (int \<Rightarrow> string) \<Rightarrow> (real \<Rightarrow> string) \<Rightarrow> HazardReport list
    \<Rightarrow> js_error + string" where
  "exportCSV parse toISO numStr filtered =
     (case rowsOf parse toISO numStr filtered of
        Inl e \<Rightarrow> Inl e
      | Inr rows \<Rightarrow>
          Inr (join [CHR 0x0A]
                 (join '','' headers # map (\<lambda>row. join '','' (map csvEscape row)) rows)))"

text \<open>Stand-ins for \<^verbatim>\<open>toISOString\<close> and \<^verbatim>\<open>String\<close> on the values of the examples.\<close>

definition sampleISO :: "int \<Rightarrow> string" where
  "sampleISO t =
     (if t = - 1000 then ''1969-12-31T23:59:59.000Z''
      else if t = 0 then ''1970-01-01T00:00:00.000Z''
      else if t = 1000 then ''1970-01-01T00:00:01.000Z''
      else if t = 86400000 then ''1970-01-02T00:00:00.000Z''
      else ''other'')"

definition sampleNum :: "real \<Rightarrow> string" where
  "sampleNum x =
     (if x = 10 then ''10'' else if x = 10.01 then ''10.01'' else if x = 50 then ''50''
      else ''other'')"

definition quotedReport :: HazardReport where
  "quotedReport =
     reportA\<lparr>description := Some (''He said '' @ [CHR 0x22] @ ''flood now'' @ [CHR 0x22])\<rparr>"

section \<open>Buckets expected for a cell\<close>

text \<open>
  What the bucket of cell \<open>k\<close> is expected to hold after the reports \<open>rs\<close>: the centre of
  the cell and the reports of \<open>rs\<close> that fall into it, in their order (the cluster
  variant), or their number (the heatmap variant).
\<close>

definition cellBucket :: "real \<Rightarrow> HazardReport list \<Rightarrow> int \<times> int \<Rightarrow> ClusterBucket" where
  "cellBucket g rs k =
     \<lparr>cb_lat = (real_of_int (snd k) + 0.5) * g, cb_lng = (real_of_int (fst k) + 0.5) * g,
      items = filter (\<lambda>r. cellOf g r = k) rs\<rparr>"

definition cellCount :: "real \<Rightarrow> HazardReport list \<Rightarrow> int \<times> int \<Rightarrow> nat" where
  "cellCount g rs k = length (filter (\<lambda>r. cellOf g r = k) rs)"

definition heatBucket :: "real \<Rightarrow> HazardReport list \<Rightarrow> int \<times> int \<Rightarrow> HeatBucket" where
  "heatBucket g rs k =
     \<lparr>hb_lat = (real_of_int (snd k) + 0.5) * g, hb_lng = (real_of_int (fst k) + 0.5) * g,
      hb_count = cellCount g rs k\<rparr>"

text \<open>The heat point expected for cell \<open>k\<close>: its centre and its normalised count.\<close>

definition heatPointOf :: "real \<Rightarrow> HazardReport list \<Rightarrow> int \<times> int \<Rightarrow> HeatPoint" where
  "heatPointOf g rs k =
     \<lparr>hp_lat = (real_of_int (snd k) + 0.5) * g, hp_lng = (real_of_int (fst k) + 0.5) * g,
      weight = real (cellCount g rs k) / real (Max (cellCount g rs ` cellOf g ` set rs))\<rparr>"

section \<open>Properties of the filter evaluator\<close>

lemma below_start_NaN: "below_start b None = False"
  by (simp add: below_start_def split: option.splits)

lemma above_end_NaN: "above_end b None = False"
  by (simp add: above_end_def split: option.splits)

lemma after_cursor_NaN: "after_cursor c None = False"
  by (simp add: after_cursor_def split: option.splits)

lemma tagsPass_empty: "tagsPass (Some []) r"
  by (simp add: tagsPass_def)

lemma sample_eval:
  "sampleParse (timestamp reportA) = Some 0"
  "sampleParse (timestamp reportB) = Some 86400000"
  "sampleParse (timestamp reportC) = None"
  "sampleParse (timestamp reportD) = Some (- 1000)"
  by (simp_all add: sampleParse_def reportA_def reportB_def reportC_def reportD_def
      sampleReport_def)

text \<open>
  C1 (as stated, refuted). The claim says that a report whose timestamp does not parse is
  excluded as soon as \<^verbatim>\<open>timeStart\<close> or \<^verbatim>\<open>timeEnd\<close> is set. Here both bounds are set,
  the timestamp of the report does not parse, and the report is kept.
\<close>

theorem unparseable_timestamp_kept_counterexample:
  "sampleParse (timestamp reportC) = None \<and>
   timeStart boundedFilters = Some 1000 \<and> timeEnd boundedFilters = Some 86400000 \<and>
   filteredReports sampleParse [reportC] boundedFilters (Some 86400000) = [reportC]"
  by (simp add: filteredReports_def keepReport_def boundedFilters_def initialFilters_def
      reportC_def sampleReport_def sampleParse_def below_start_def above_end_def
      after_cursor_def tagsPass_def)

text \<open>
  C1 (amended). For every report whose timestamp does not parse, neither time bound and
  not the timeline cursor either ever excludes it, whether the bounds are set or not:
  the report is kept exactly when it is kept with both bounds and the cursor absent,
  that is when it passes the type, status, source and tag rules.
\<close>

theorem unparseable_timestamp_ignores_time:
  assumes "parse (timestamp r) = None"
  shows "\<not> below_start (timeStart filters) (parse (timestamp r)) \<and>
         \<not> above_end (timeEnd filters) (parse (timestamp r)) \<and>
         \<not> after_cursor cursor (parse (timestamp r)) \<and>
         keepReport parse filters cursor r =
           keepReport parse (filters\<lparr>timeStart := None, timeEnd := None\<rparr>) None r"
  using assms
  by (simp add: keepReport_def below_start_NaN above_end_NaN after_cursor_NaN)

theorem unparseable_timestamp_ignores_time_witness:
  "sampleParse (timestamp reportC) = None \<and>
   keepReport sampleParse boundedFilters (Some 0) reportC =
     keepReport sampleParse (boundedFilters\<lparr>timeStart := None, timeEnd := None\<rparr>) None reportC \<and>
   keepReport sampleParse boundedFilters (Some 0) reportC"
proof -
  have h: "sampleParse (timestamp reportC) = None" by (simp add: sample_eval)
  have k: "keepReport sampleParse (boundedFilters\<lparr>timeStart := None, timeEnd := None\<rparr>) None
             reportC"
    by (simp add: keepReport_def boundedFilters_def initialFilters_def h below_start_def
        above_end_def after_cursor_def tagsPass_empty)
  from unparseable_timestamp_ignores_time [of sampleParse reportC boundedFilters "Some 0"] h k
  show ?thesis by simp
qed

subsection \<open>The temporal domain bounds every parsed timestamp\<close>

lemma domain_fold_bounds:
  "\<forall>r\<in>set rs. \<forall>t. parse (timestamp r) = Some t \<longrightarrow>
     (\<exists>m. fst (foldl (domainStep parse) (None, None) rs) = Some m \<and> m \<le> t) \<and>
     (\<exists>m. snd (foldl (domainStep parse) (None, None) rs) = Some m \<and> t \<le> m)"
proof (induction rs rule: rev_induct)
  case Nil
  then show ?case by simp
next
  case (snoc x xs)
  show ?case
  proof (cases "parse (timestamp x)")
    case None
    with snoc show ?thesis by (auto simp: domainStep_def)
  next
    case (Some u)
    with snoc show ?thesis
      by (auto simp: domainStep_def split: option.splits)
  qed
qed

lemma timeDomain_bounds:
  assumes "timeDomain parse rs = Some d" "r \<in> set rs" "parse (timestamp r) = Some t"
  shows "min_t d \<le> t \<and> t \<le> max_t d"
proof -
  from domain_fold_bounds[of rs parse] assms(2,3)
  obtain a b where a: "fst (foldl (domainStep parse) (None, None) rs) = Some a" "a \<le> t"
    and b: "snd (foldl (domainStep parse) (None, None) rs) = Some b" "t \<le> b"
    by blast
  from a(1) b(1) have "foldl (domainStep parse) (None, None) rs = (Some a, Some b)"
    by (metis prod.collapse)
  with assms(1) have "d = \<lparr>min_t = a, max_t = b\<rparr>"
    by (simp add: timeDomain_def split: if_splits)
  with a b show ?thesis by simp
qed

lemma keep_default:
  assumes "r \<in> set reports"
  shows "keepReport parse (initialFilters (timeDomain parse reports) hm cl)
           (initialTimeline (timeDomain parse reports)) r"
proof (cases "timeDomain parse reports")
  case None
  then show ?thesis
    by (simp add: keepReport_def initialFilters_def initialTimeline_def below_start_def
        above_end_def after_cursor_def tagsPass_empty)
next
  case (Some d)
  show ?thesis
  proof (cases "parse (timestamp r)")
    case None
    then show ?thesis
      by (simp add: keepReport_def initialFilters_def initialTimeline_def below_start_NaN
        above_end_NaN after_cursor_NaN tagsPass_empty)
  next
    case (Some t)
    from timeDomain_bounds[OF \<open>timeDomain parse reports = Some d\<close> assms Some]
    have "min_t d \<le> t" "t \<le> max_t d" by auto
    then show ?thesis using Some \<open>timeDomain parse reports = Some d\<close>
      by (simp add: keepReport_def initialFilters_def initialTimeline_def below_start_def
        above_end_def after_cursor_def tagsPass_empty)
  qed
qed

text \<open>
  C4. For every report sequence, the all-default filters (type, status and source
  \<^verbatim>\<open>"all"\<close>, the time range equal to the temporal domain, an empty tag query) with the
  cursor at the maximum of the domain return the input sequence itself: the same
  reports in the same order. The evaluator is a pure function of its arguments, so
  neither the sequence nor a report is changed.
\<close>

theorem default_filters_identity:
  "filteredReports parse reports (initialFilters (timeDomain parse reports) hm cl)
     (initialTimeline (timeDomain parse reports)) = reports"
  unfolding filteredReports_def by (rule filter_True) (simp add: keep_default)

theorem default_filters_identity_witness:
  "timeDomain sampleParse sampleReports = Some \<lparr>min_t = 0, max_t = 86400000\<rparr> \<and>
   filteredReports sampleParse sampleReports
     (initialFilters (timeDomain sampleParse sampleReports) False True)
     (initialTimeline (timeDomain sampleParse sampleReports)) = sampleReports"
proof -
  have "timeDomain sampleParse sampleReports = Some \<lparr>min_t = 0, max_t = 86400000\<rparr>"
    by (simp add: timeDomain_def sampleReports_def domainStep_def sample_eval)
  with default_filters_identity [of sampleParse sampleReports False True]
  show ?thesis by simp
qed

lemma keep_start_zero:
  "keepReport parse (filters\<lparr>timeStart := Some 0\<rparr>) cursor =
   keepReport parse (filters\<lparr>timeStart := None\<rparr>) cursor"
  by (rule ext) (simp add: keepReport_def below_start_def)

lemma keep_end_zero:
  "keepReport parse (filters\<lparr>timeEnd := Some 0\<rparr>) cursor =
   keepReport parse (filters\<lparr>timeEnd := None\<rparr>) cursor"
  by (rule ext) (simp add: keepReport_def above_end_def)

text \<open>
  C10. A time bound equal to \<open>0\<close> is treated as an absent bound: with \<^verbatim>\<open>timeStart\<close>
  equal to \<open>0\<close> the lower comparison never rejects a report, whatever its timestamp, and
  the evaluator returns what it returns with \<^verbatim>\<open>timeStart\<close> undefined; the same holds
  for \<^verbatim>\<open>timeEnd\<close> equal to \<open>0\<close> and the upper comparison.
\<close>

theorem zero_bound_is_absent:
  "below_start (Some 0) t0 = False \<and> above_end (Some 0) t0 = False \<and>
   filteredReports parse reports (filters\<lparr>timeStart := Some 0\<rparr>) cursor =
     filteredReports parse reports (filters\<lparr>timeStart := None\<rparr>) cursor \<and>
   filteredReports parse reports (filters\<lparr>timeEnd := Some 0\<rparr>) cursor =
     filteredReports parse reports (filters\<lparr>timeEnd := None\<rparr>) cursor"
  by (simp add: filteredReports_def keep_start_zero keep_end_zero below_start_def
      above_end_def)

text \<open>
  A report dated one second before the epoch passes a lower bound of \<open>0\<close>, and a report
  dated one day after the epoch passes an upper bound of \<open>0\<close>.
\<close>

theorem zero_bound_is_absent_witness:
  "sampleParse (timestamp reportD) = Some (- 1000) \<and>
   filteredReports sampleParse [reportD]
     ((initialFilters None False True)\<lparr>timeStart := Some 0\<rparr>) None = [reportD] \<and>
   sampleParse (timestamp reportB) = Some 86400000 \<and>
   filteredReports sampleParse [reportB]
     ((initialFilters None False True)\<lparr>timeEnd := Some 0\<rparr>) None = [reportB]"
proof -
  have a: "filteredReports sampleParse [reportD]
     ((initialFilters None False True)\<lparr>timeStart := None\<rparr>) None = [reportD]"
    by (simp add: filteredReports_def keepReport_def initialFilters_def below_start_def
        above_end_def after_cursor_def tagsPass_empty)
  have b: "filteredReports sampleParse [reportB]
     ((initialFilters None False True)\<lparr>timeEnd := None\<rparr>) None = [reportB]"
    by (simp add: filteredReports_def keepReport_def initialFilters_def below_start_def
        above_end_def after_cursor_def tagsPass_empty)
  from zero_bound_is_absent [of "Some (- 1000)" sampleParse "[reportD]"
      "initialFilters None False True" None]
    zero_bound_is_absent [of "Some 86400000" sampleParse "[reportB]"
      "initialFilters None False True" None] a b
  show ?thesis by (simp add: sample_eval)
qed


section \<open>Properties of the replay scheduler\<close>


lemma playStep_pos: "1 \<le> playStep d"
  by (simp add: playStep_def)

lemma tick_playing:
  assumes "isPlaying st" "timeline st = Some c"
  shows "tick (Some d) st =
           (if c + playStep d \<ge> max_t d
            then st\<lparr>timeline := Some (max_t d), isPlaying := False\<rparr>
            else st\<lparr>timeline := Some (c + playStep d)\<rparr>)"
  using assms by (simp add: tick_def advance_def Let_def)

lemma tick_stopped: "\<not> isPlaying st \<Longrightarrow> (tick td ^^ m) st = st"
  by (induction m) (simp_all add: tick_def split: option.splits)

lemma replay_trace:
  assumes "isPlaying st" "timeline st = Some c"
  shows "\<exists>n\<ge>1. c + int n * playStep d \<ge> max_t d \<and>
           (\<forall>k<n. (tick (Some d) ^^ k) st = st\<lparr>timeline := Some (c + int k * playStep d)\<rparr>
                  \<and> (0 < k \<longrightarrow> c + int k * playStep d < max_t d)) \<and>
           (\<forall>m\<ge>n. (tick (Some d) ^^ m) st = st\<lparr>timeline := Some (max_t d), isPlaying := False\<rparr>)"
  using assms
proof (induction "nat (max_t d - c)" arbitrary: st c rule: less_induct)
  case less
  let ?s = "playStep d"
  have sp: "1 \<le> ?s" by (rule playStep_pos)
  have st0: "st\<lparr>timeline := Some c\<rparr> = st" using less.prems(2) by simp
  show ?case
  proof (cases "c + ?s \<ge> max_t d")
    case True
    let ?e = "st\<lparr>timeline := Some (max_t d), isPlaying := False\<rparr>"
    have t1: "tick (Some d) st = ?e"
      using tick_playing[OF less.prems(1,2), of d] True by simp
    have "\<forall>m\<ge>1. (tick (Some d) ^^ m) st = ?e"
    proof (intro allI impI)
      fix m :: nat assume "1 \<le> m"
      then obtain j where m: "m = Suc j" by (cases m) auto
      have "(tick (Some d) ^^ m) st = (tick (Some d) ^^ j) (tick (Some d) st)"
        unfolding m by (simp add: funpow_swap1)
      also have "\<dots> = ?e" unfolding t1 by (rule tick_stopped) simp
      finally show "(tick (Some d) ^^ m) st = ?e" .
    qed
    moreover have "\<forall>k<(1::nat). (tick (Some d) ^^ k) st = st\<lparr>timeline := Some (c + int k * ?s)\<rparr>
                  \<and> (0 < k \<longrightarrow> c + int k * ?s < max_t d)"
      using st0 by simp
    moreover have "c + int 1 * ?s \<ge> max_t d" using True by simp
    ultimately show ?thesis by blast
  next
    case False
    let ?st' = "st\<lparr>timeline := Some (c + ?s)\<rparr>"
    have t1: "tick (Some d) st = ?st'"
      using tick_playing[OF less.prems(1,2), of d] False by simp
    have lt: "nat (max_t d - (c + ?s)) < nat (max_t d - c)" using False sp by linarith
    have p': "isPlaying ?st'" "timeline ?st' = Some (c + ?s)"
      using less.prems(1) by simp_all
    from less.hyps[OF lt p'] obtain n where n: "1 \<le> n"
      and top: "c + ?s + int n * ?s \<ge> max_t d"
      and low: "\<forall>k<n. (tick (Some d) ^^ k) ?st' = ?st'\<lparr>timeline := Some (c + ?s + int k * ?s)\<rparr>
                  \<and> (0 < k \<longrightarrow> c + ?s + int k * ?s < max_t d)"
      and high: "\<forall>m\<ge>n. (tick (Some d) ^^ m) ?st' = ?st'\<lparr>timeline := Some (max_t d), isPlaying := False\<rparr>"
      by blast
    have shift: "(tick (Some d) ^^ Suc j) st = (tick (Some d) ^^ j) ?st'" for j
      by (simp add: funpow_swap1 t1)
    have "\<forall>k<Suc n. (tick (Some d) ^^ k) st = st\<lparr>timeline := Some (c + int k * ?s)\<rparr>
                  \<and> (0 < k \<longrightarrow> c + int k * ?s < max_t d)"
    proof (intro allI impI)
      fix k assume k: "k < Suc n"
      show "(tick (Some d) ^^ k) st = st\<lparr>timeline := Some (c + int k * ?s)\<rparr>
                  \<and> (0 < k \<longrightarrow> c + int k * ?s < max_t d)"
      proof (cases k)
        case 0
        then show ?thesis using st0 by simp
      next
        case (Suc j)
        then have "j < n" using k by simp
        with low have run: "(tick (Some d) ^^ j) ?st' = ?st'\<lparr>timeline := Some (c + ?s + int j * ?s)\<rparr>"
          and bound: "0 < j \<longrightarrow> c + ?s + int j * ?s < max_t d" by auto
        have eq: "c + ?s + int j * ?s = c + int k * ?s"
          unfolding Suc by (simp add: algebra_simps)
        have "c + ?s + int j * ?s < max_t d"
          using bound False by (cases j) simp_all
        with run eq show ?thesis unfolding Suc shift by simp
      qed
    qed
    moreover have "\<forall>m\<ge>Suc n. (tick (Some d) ^^ m) st = st\<lparr>timeline := Some (max_t d), isPlaying := False\<rparr>"
    proof (intro allI impI)
      fix m assume "Suc n \<le> m"
      then obtain j where m: "m = Suc j" and "n \<le> j" by (cases m) auto
      with high show "(tick (Some d) ^^ m) st = st\<lparr>timeline := Some (max_t d), isPlaying := False\<rparr>"
        unfolding m shift by simp
    qed
    moreover have "c + int (Suc n) * ?s \<ge> max_t d"
      using top by (simp add: algebra_simps)
    ultimately show ?thesis by (intro exI[of _ "Suc n"]) simp
  qed
qed

lemma replay_monotone:
  assumes "isPlaying st" "timeline st = Some c" "c \<le> max_t d"
  shows "\<exists>a b. timeline ((tick (Some d) ^^ k) st) = Some a \<and>
               timeline ((tick (Some d) ^^ Suc k) st) = Some b \<and> a \<le> b \<and> b \<le> max_t d"
proof -
  let ?s = "playStep d"
  have sp: "1 \<le> ?s" by (rule playStep_pos)
  from replay_trace[OF assms(1,2), of d] obtain n where n: "1 \<le> n"
    and low: "\<forall>k<n. (tick (Some d) ^^ k) st = st\<lparr>timeline := Some (c + int k * ?s)\<rparr>
                  \<and> (0 < k \<longrightarrow> c + int k * ?s < max_t d)"
    and high: "\<forall>m\<ge>n. (tick (Some d) ^^ m) st = st\<lparr>timeline := Some (max_t d), isPlaying := False\<rparr>"
    by blast
  have le: "j < n \<Longrightarrow> c + int j * ?s \<le> max_t d" for j
    using low assms(3) by (cases j) force+
  consider "Suc k < n" | "k < n" "n \<le> Suc k" | "n \<le> k" by linarith
  then show ?thesis
  proof cases
    case 1
    then have "k < n" by simp
    have a: "timeline ((tick (Some d) ^^ k) st) = Some (c + int k * ?s)"
      using low \<open>k < n\<close> by simp
    have "(tick (Some d) ^^ Suc k) st = st\<lparr>timeline := Some (c + int (Suc k) * ?s)\<rparr>"
      using low 1 by blast
    then have b: "timeline ((tick (Some d) ^^ Suc k) st) = Some (c + int (Suc k) * ?s)"
      by (simp del: funpow.simps)
    have "c + int k * ?s \<le> c + int (Suc k) * ?s" using sp by (simp add: algebra_simps)
    with a b le[OF 1] show ?thesis by blast
  next
    case 2
    have a: "timeline ((tick (Some d) ^^ k) st) = Some (c + int k * ?s)"
      using low 2(1) by simp
    have "(tick (Some d) ^^ Suc k) st = st\<lparr>timeline := Some (max_t d), isPlaying := False\<rparr>"
      using high 2(2) by blast
    then have b: "timeline ((tick (Some d) ^^ Suc k) st) = Some (max_t d)"
      by (simp del: funpow.simps)
    from a b le[OF 2(1)] show ?thesis by blast
  next
    case 3
    have a: "timeline ((tick (Some d) ^^ k) st) = Some (max_t d)"
      using high 3 by simp
    have "(tick (Some d) ^^ Suc k) st = st\<lparr>timeline := Some (max_t d), isPlaying := False\<rparr>"
      using high 3 by (meson le_SucI)
    then have b: "timeline ((tick (Some d) ^^ Suc k) st) = Some (max_t d)"
      by (simp del: funpow.simps)
    from a b show ?thesis by blast
  qed
qed


text \<open>
  C3. The cursor is initialised to the maximum of the domain and the slider offers no
  value outside the domain, so a tick finds the cursor at or below the maximum. While
  playing, a tick adds exactly \<open>max 1 ((max - min) div 120)\<close> to the cursor, unless the
  sum meets or exceeds the maximum: then the cursor becomes the maximum and playing
  stops. From any such state there is a first tick \<open>n\<close> at which that happens; before it
  the cursor after \<open>k\<close> ticks is \<open>c + k * step\<close>, from it on the state is stopped at the
  maximum for ever (no looping), and the cursor never decreases from one tick to the
  next.
\<close>

theorem replay_schedule:
  assumes "isPlaying st" and "timeline st = Some c" and "c \<le> max_t d"
  shows "playStep d = max 1 ((max_t d - min_t d) div 120) \<and>
         tick (Some d) st =
           (if c + playStep d \<ge> max_t d
            then st\<lparr>timeline := Some (max_t d), isPlaying := False\<rparr>
            else st\<lparr>timeline := Some (c + playStep d)\<rparr>) \<and>
         (\<exists>n\<ge>1. c + int n * playStep d \<ge> max_t d \<and>
            (\<forall>k<n. (tick (Some d) ^^ k) st = st\<lparr>timeline := Some (c + int k * playStep d)\<rparr>
                   \<and> (0 < k \<longrightarrow> c + int k * playStep d < max_t d)) \<and>
            (\<forall>m\<ge>n. (tick (Some d) ^^ m) st =
                     st\<lparr>timeline := Some (max_t d), isPlaying := False\<rparr>)) \<and>
         (\<forall>k. \<exists>a b. timeline ((tick (Some d) ^^ k) st) = Some a \<and>
                     timeline ((tick (Some d) ^^ Suc k) st) = Some b \<and>
                     a \<le> b \<and> b \<le> max_t d)"
proof -
  have "playStep d = max 1 ((max_t d - min_t d) div 120)"
    by (simp add: playStep_def)
  moreover note tick_playing [OF assms(1,2), of d]
  moreover note replay_trace [OF assms(1,2), of d]
  moreover have "\<forall>k. \<exists>a b. timeline ((tick (Some d) ^^ k) st) = Some a \<and>
                     timeline ((tick (Some d) ^^ Suc k) st) = Some b \<and>
                     a \<le> b \<and> b \<le> max_t d"
    using replay_monotone [OF assms] by blast
  ultimately show ?thesis by blast
qed

text \<open>
  A domain of one day gives a step of 720000 ms. From the start of the day the first tick
  moves the cursor to 720000 and keeps playing; from 86000000 the next tick would pass
  the end of the day, so the cursor is set to 86400000 and playing stops.
\<close>

theorem replay_schedule_witness:
  "isPlaying (sampleReplay 0) \<and> timeline (sampleReplay 0) = Some 0 \<and>
   0 \<le> max_t sampleDomain \<and> playStep sampleDomain = 720000 \<and>
   tick (Some sampleDomain) (sampleReplay 0) = sampleReplay 720000 \<and>
   tick (Some sampleDomain) (sampleReplay 86000000) =
     \<lparr>timeline = Some 86400000, isPlaying = False\<rparr>"
  using replay_schedule [of "sampleReplay 0" 0 sampleDomain]
    replay_schedule [of "sampleReplay 86000000" 86000000 sampleDomain]
  by (simp add: sampleReplay_def sampleDomain_def)

section \<open>Properties of the dominant status\<close>

lemma countStatuses_eq:
  "countStatuses xs s = length (filter (\<lambda>r. status r = s) xs)"
  unfolding countStatuses_def
  by (induction xs arbitrary: s rule: rev_induct) simp_all

text \<open>
  C6. The status returned for a list of members has a maximal member count, and no
  status that comes before it in the order \<open>unverified, under_review, verified,
  false_alarm\<close> reaches that count: among the statuses of maximal count it is the first
  one. This holds for every list, the non-empty ones in particular.
\<close>

theorem dominant_status_first_maximal:
  "(\<forall>s. length (filter (\<lambda>r. status r = s) xs)
        \<le> length (filter (\<lambda>r. status r = dominantStatusIn xs) xs)) \<and>
   (\<forall>s\<in>set (takeWhile (\<lambda>k. k \<noteq> dominantStatusIn xs) statusKeys).
        length (filter (\<lambda>r. status r = s) xs)
        < length (filter (\<lambda>r. status r = dominantStatusIn xs) xs))"
proof -
  have a: "length (filter (\<lambda>r. status r = s) xs)
      \<le> length (filter (\<lambda>r. status r = dominantStatusIn xs) xs)" for s
    unfolding countStatuses_eq[symmetric]
    by (cases s) (simp_all add: dominantStatusIn_def statusKeys_def Let_def)
  have b: "\<forall>s\<in>set (takeWhile (\<lambda>k. k \<noteq> dominantStatusIn xs) statusKeys).
        length (filter (\<lambda>r. status r = s) xs)
        < length (filter (\<lambda>r. status r = dominantStatusIn xs) xs)"
    unfolding countStatuses_eq[symmetric]
    by (simp add: dominantStatusIn_def statusKeys_def Let_def)
  from a b show ?thesis by blast
qed

text \<open>
  One verified and one unverified member tie: \<open>unverified\<close> comes first in the order
  and is returned. With a second verified member, \<open>verified\<close> is returned and
  \<open>unverified\<close>, \<open>under_review\<close> come before it with smaller counts.
\<close>

theorem dominant_status_first_maximal_witness:
  "dominantStatusIn [reportA, reportB] = unverified \<and>
   dominantStatusIn sampleReports = verified \<and>
   takeWhile (\<lambda>k. k \<noteq> dominantStatusIn sampleReports) statusKeys = [unverified, under_review] \<and>
   length (filter (\<lambda>r. status r = unverified) sampleReports)
     < length (filter (\<lambda>r. status r = verified) sampleReports) \<and>
   length (filter (\<lambda>r. status r = under_review) sampleReports)
     < length (filter (\<lambda>r. status r = verified) sampleReports)"
proof -
  have st: "status reportA = verified" "status reportB = unverified" "status reportC = verified"
    by (simp_all add: reportA_def reportB_def reportC_def sampleReport_def)
  have d1: "dominantStatusIn [reportA, reportB] = unverified"
    by (simp add: dominantStatusIn_def countStatuses_def statusKeys_def st)
  have d2: "dominantStatusIn sampleReports = verified"
    by (simp add: dominantStatusIn_def countStatuses_def statusKeys_def st sampleReports_def)
  have tw: "takeWhile (\<lambda>k. k \<noteq> dominantStatusIn sampleReports) statusKeys
      = [unverified, under_review]"
    by (simp add: d2 statusKeys_def)
  from dominant_status_first_maximal [of sampleReports] d1 d2 tw
  show ?thesis by simp
qed


section \<open>Properties of the tag filter\<close>

lemma is_sep_code: "is_sep c \<longleftrightarrow> (let n = (of_char c :: nat) in n = 44 \<or> n = 32 \<or> (9 \<le> n \<and> n \<le> 13))"
proof -
  have "c = CHR '','' \<longleftrightarrow> (of_char c :: nat) = of_char (CHR '','')"
    by (simp only: of_char_eq_iff)
  then show ?thesis by (auto simp: is_sep_def is_space_def Let_def)
qed

lemma is_space_lower: "is_space (lower_char c) = is_space c"
  by (auto simp: is_space_def lower_char_def Let_def)

lemma is_sep_lower: "is_sep (lower_char c) = is_sep c"
  by (auto simp: is_sep_code lower_char_def Let_def)

lemma is_space_sep: "is_space c \<Longrightarrow> is_sep c"
  by (simp add: is_sep_def)

lemma split_sep_nonempty: "split_sep s \<noteq> []"
  by (induction s rule: split_sep.induct) (auto split: list.splits)

lemma split_sep_pieces: "p \<in> set (split_sep s) \<Longrightarrow> c \<in> set p \<Longrightarrow> \<not> is_sep c"
proof (induction s arbitrary: p rule: split_sep.induct)
  case 1
  then show ?case by simp
next
  case (2 c)
  then show ?case by (auto split: if_splits)
next
  case (3 c d ds)
  then show ?case by (auto split: list.splits if_splits) blast+
qed

lemma split_sep_concat: "concat (split_sep s) = filter (\<lambda>c. \<not> is_sep c) s"
  by (induction s rule: split_sep.induct) (auto split: list.splits simp: split_sep_nonempty)

lemma concat_filter_nonempty: "concat (filter (\<lambda>s. s \<noteq> []) xs) = concat xs"
  by (induction xs) auto

lemma needles_Nil_iff: "needles_of q = [] \<longleftrightarrow> (\<forall>c\<in>set q. is_sep c)"
proof -
  have "needles_of q = [] \<longleftrightarrow> concat (needles_of q) = []"
    by (auto simp: needles_of_def filter_empty_conv)
  also have "\<dots> \<longleftrightarrow> filter (\<lambda>c. \<not> is_sep c) (toLowerCase q) = []"
    by (simp add: needles_of_def concat_filter_nonempty split_sep_concat)
  also have "\<dots> \<longleftrightarrow> (\<forall>c\<in>set q. is_sep c)"
    by (auto simp: filter_empty_conv toLowerCase_def is_sep_lower)
  finally show ?thesis .
qed

lemma trim_Nil_iff: "trim s = [] \<longleftrightarrow> (\<forall>c\<in>set s. is_space c)"
proof
  assume "trim s = []"
  then have a: "\<forall>c\<in>set (dropWhile is_space s). is_space c"
    by (simp add: trim_def dropWhile_eq_Nil_conv)
  have "dropWhile is_space s = []"
  proof (rule ccontr)
    assume ne: "dropWhile is_space s \<noteq> []"
    then have "\<not> is_space (hd (dropWhile is_space s))" by (rule hd_dropWhile)
    moreover have "hd (dropWhile is_space s) \<in> set (dropWhile is_space s)" using ne by simp
    ultimately show False using a by blast
  qed
  then show "\<forall>c\<in>set s. is_space c" by (simp add: dropWhile_eq_Nil_conv)
next
  assume "\<forall>c\<in>set s. is_space c"
  then have "dropWhile is_space s = []" by (simp add: dropWhile_eq_Nil_conv)
  then show "trim s = []" unfolding trim_def by (simp only: rev.simps dropWhile.simps)
qed

lemma tagsPass_iff:
  "tagsPass (Some q) r \<longleftrightarrow>
     needles_of q = [] \<or>
     set (needles_of q) \<subseteq> set (map toLowerCase (case tags r of None \<Rightarrow> [] | Some ts \<Rightarrow> ts))"
proof (cases "q \<noteq> [] \<and> length (trim q) > 0")
  case True
  then show ?thesis
    by (auto simp: tagsPass_def Let_def list_all_iff)
next
  case False
  then have "\<forall>c\<in>set q. is_space c" using trim_Nil_iff[of q] by auto
  then have "needles_of q = []" using needles_Nil_iff is_space_sep by blast
  with False show ?thesis by (auto simp: tagsPass_def)
qed

lemma keep_tags_cong:
  assumes "set (needles_of q1) = set (needles_of q2)"
  shows "keepReport parse (filters\<lparr>tagsQuery := Some q1\<rparr>) cursor =
         keepReport parse (filters\<lparr>tagsQuery := Some q2\<rparr>) cursor"
proof (rule ext)
  fix r
  have "needles_of q1 = [] \<longleftrightarrow> needles_of q2 = []" using assms by (metis set_empty)
  with assms have "tagsPass (Some q1) r = tagsPass (Some q2) r"
    unfolding tagsPass_iff by simp
  then show "keepReport parse (filters\<lparr>tagsQuery := Some q1\<rparr>) cursor r =
         keepReport parse (filters\<lparr>tagsQuery := Some q2\<rparr>) cursor r"
    by (simp add: keepReport_def)
qed

lemma no_tags_rejected:
  assumes "needles_of q \<noteq> []" "tags r = None \<or> tags r = Some []"
  shows "\<not> keepReport parse (filters\<lparr>tagsQuery := Some q\<rparr>) cursor r"
proof -
  from assms have "\<not> tagsPass (Some q) r"
    unfolding tagsPass_iff by auto
  then show ?thesis by (simp add: keepReport_def)
qed

lemma keep_tags_split:
  "keepReport parse (filters\<lparr>tagsQuery := Some q\<rparr>) cursor r \<longleftrightarrow>
     keepReport parse (filters\<lparr>tagsQuery := None\<rparr>) cursor r \<and> tagsPass (Some q) r"
  by (simp add: keepReport_def tagsPass_def)

lemma needles_examples:
  "needles_of ''flood, coast'' = [''flood'', ''coast'']"
  "needles_of ''coast flood'' = [''coast'', ''flood'']"
  by code_simp code_simp

text \<open>
  C8. The needles of a query are the non-empty pieces between runs of commas and
  whitespace of the lower-cased query: none is empty, none contains a separator, and
  together they hold every other character of the query in order. The tag test passes
  exactly when there is no needle or every needle is one of the lower-cased tags of the
  report (equality of whole strings), and a report is kept exactly when it passes the
  other rules and the tag test. Hence two queries whose needles are permutations of one
  another give the same result, and a report without tags is rejected as soon as there
  is a needle.
\<close>

theorem tag_query_semantics:
  "(\<forall>n\<in>set (needles_of q). n \<noteq> [] \<and> (\<forall>c\<in>set n. \<not> is_sep c)) \<and>
   concat (needles_of q) = filter (\<lambda>c. \<not> is_sep c) (toLowerCase q) \<and>
   (tagsPass (Some q) r \<longleftrightarrow>
      needles_of q = [] \<or>
      set (needles_of q) \<subseteq> set (map toLowerCase (case tags r of None \<Rightarrow> [] | Some ts \<Rightarrow> ts))) \<and>
   (keepReport parse (filters\<lparr>tagsQuery := Some q\<rparr>) cursor r \<longleftrightarrow>
      keepReport parse (filters\<lparr>tagsQuery := None\<rparr>) cursor r \<and> tagsPass (Some q) r) \<and>
   (mset (needles_of q1) = mset (needles_of q2) \<longrightarrow>
      filteredReports parse reports (filters\<lparr>tagsQuery := Some q1\<rparr>) cursor =
      filteredReports parse reports (filters\<lparr>tagsQuery := Some q2\<rparr>) cursor) \<and>
   (needles_of q \<noteq> [] \<and> (tags r = None \<or> tags r = Some []) \<longrightarrow>
      \<not> keepReport parse (filters\<lparr>tagsQuery := Some q\<rparr>) cursor r)"
proof -
  have a: "\<forall>n\<in>set (needles_of q). n \<noteq> [] \<and> (\<forall>c\<in>set n. \<not> is_sep c)"
    using split_sep_pieces by (auto simp: needles_of_def)
  have b: "concat (needles_of q) = filter (\<lambda>c. \<not> is_sep c) (toLowerCase q)"
    by (simp add: needles_of_def concat_filter_nonempty split_sep_concat)
  have c: "mset (needles_of q1) = mset (needles_of q2) \<longrightarrow>
      filteredReports parse reports (filters\<lparr>tagsQuery := Some q1\<rparr>) cursor =
      filteredReports parse reports (filters\<lparr>tagsQuery := Some q2\<rparr>) cursor"
  proof
    assume "mset (needles_of q1) = mset (needles_of q2)"
    then have s: "set (needles_of q1) = set (needles_of q2)" by (rule mset_eq_setD)
    show "filteredReports parse reports (filters\<lparr>tagsQuery := Some q1\<rparr>) cursor =
      filteredReports parse reports (filters\<lparr>tagsQuery := Some q2\<rparr>) cursor"
      unfolding filteredReports_def by (simp only: keep_tags_cong [OF s])
  qed
  from a b c tagsPass_iff [where q = q and r = r]
    keep_tags_split [where parse = parse and filters = filters and q = q and cursor = cursor
      and r = r]
    no_tags_rejected [where parse = parse and filters = filters and q = q and cursor = cursor
      and r = r]
  show ?thesis by blast
qed

lemma sample_tags_eval:
  "filteredReports sampleParse sampleReports
     ((initialFilters None False True)\<lparr>tagsQuery := Some ''flood, coast''\<rparr>) None = [reportA]"
  by code_simp

text \<open>
  The queries \<open>flood, coast\<close> and \<open>coast flood\<close> select the same report, the only one
  tagged with both words (one of its tags is written \<open>Flood\<close>); the report without tags is
  rejected.
\<close>

theorem tag_query_semantics_witness:
  "needles_of ''flood, coast'' = [''flood'', ''coast''] \<and>
   needles_of ''coast flood'' = [''coast'', ''flood''] \<and>
   filteredReports sampleParse sampleReports
     ((initialFilters None False True)\<lparr>tagsQuery := Some ''flood, coast''\<rparr>) None = [reportA] \<and>
   filteredReports sampleParse sampleReports
     ((initialFilters None False True)\<lparr>tagsQuery := Some ''coast flood''\<rparr>) None = [reportA] \<and>
   \<not> keepReport sampleParse ((initialFilters None False True)\<lparr>tagsQuery := Some ''flood, coast''\<rparr>)
       None reportC"
proof -
  have t: "tags reportC = None" by (simp add: reportC_def sampleReport_def)
  have m: "mset (needles_of ''flood, coast'') = mset (needles_of ''coast flood'')"
    by (simp add: needles_examples)
  from tag_query_semantics [where q = "''flood, coast''" and r = reportC and parse = sampleParse
      and filters = "initialFilters None False True" and cursor = None
      and ?q1.0 = "''flood, coast''" and ?q2.0 = "''coast flood''" and reports = sampleReports]
    sample_tags_eval t m needles_examples
  show ?thesis by simp
qed


section \<open>Properties of the CSV export\<close>

lemma csvEscape_plain:
  "CHR '','' \<notin> set s \<Longrightarrow> CHR 0x0A \<notin> set s \<Longrightarrow> CHR 0x22 \<notin> set s \<Longrightarrow> csvEscape s = s"
  by (simp add: csvEscape_def)

lemma csvEscape_quoted:
  "CHR '','' \<in> set s \<or> CHR 0x0A \<in> set s \<or> CHR 0x22 \<in> set s \<Longrightarrow>
   csvEscape s = [CHR 0x22] @ doubleQuotes s @ [CHR 0x22]"
  by (simp add: csvEscape_def)

lemma doubleQuotes_others:
  "filter (\<lambda>c. c \<noteq> CHR 0x22) (doubleQuotes s) = filter (\<lambda>c. c \<noteq> CHR 0x22) s"
  by (induction s) (simp_all add: doubleQuotes_def)

lemma doubleQuotes_quotes:
  "length (filter (\<lambda>c. c = CHR 0x22) (doubleQuotes s)) = 2 * length (filter (\<lambda>c. c = CHR 0x22) s)"
  by (induction s) (simp_all add: doubleQuotes_def)

lemma rowsOf_valid:
  assumes "\<forall>r\<in>set rs. parse (timestamp r) \<noteq> None"
  shows "rowsOf parse toISO numStr rs =
     Inr (map (\<lambda>r. [id_field r, safe (title r), type_field r, statusString (status r),
               sourceString (source r), toISO (the (parse (timestamp r))), numStr (lat r),
               numStr (lng r), safe (locationName r), safe (personName r),
               join ''|'' (case tags r of None \<Rightarrow> [] | Some ts \<Rightarrow> ts),
               safe (description r)]) rs)"
  using assms
  by (induction rs) (auto simp: rowOf_def toISOString_def)

lemma rowsOf_invalid:
  assumes "\<exists>r\<in>set rs. parse (timestamp r) = None"
  shows "rowsOf parse toISO numStr rs = Inl RangeError"
  using assms
proof (induction rs)
  case Nil
  then show ?case by simp
next
  case (Cons a rs)
  show ?case
  proof (cases "parse (timestamp a)")
    case None
    then show ?thesis by (simp add: rowOf_def toISOString_def)
  next
    case (Some t)
    with Cons have "rowsOf parse toISO numStr rs = Inl RangeError" by auto
    with Some show ?thesis by (simp add: rowOf_def toISOString_def)
  qed
qed

lemma exportCSV_invalid:
  "\<exists>r\<in>set rs. parse (timestamp r) = None \<Longrightarrow> exportCSV parse toISO numStr rs = Inl RangeError"
  by (simp add: exportCSV_def rowsOf_invalid)

lemma exportCSV_valid:
  assumes "\<forall>r\<in>set rs. parse (timestamp r) \<noteq> None"
  shows "exportCSV parse toISO numStr rs =
     Inr (join [CHR 0x0A]
       (join '','' headers #
        map (\<lambda>r. join '','' (map csvEscape
              [id_field r, safe (title r), type_field r, statusString (status r),
               sourceString (source r), toISO (the (parse (timestamp r))), numStr (lat r),
               numStr (lng r), safe (locationName r), safe (personName r),
               join ''|'' (case tags r of None \<Rightarrow> [] | Some ts \<Rightarrow> ts),
               safe (description r)])) rs))"
  by (simp add: exportCSV_def rowsOf_valid[OF assms] comp_def)

lemma quote_example:
  "csvEscape (''He said '' @ [CHR 0x22] @ ''flood now'' @ [CHR 0x22]) =
   [CHR 0x22] @ ''He said '' @ [CHR 0x22, CHR 0x22] @ ''flood now'' @ [CHR 0x22, CHR 0x22] @ [CHR 0x22]"
  by (simp add: csvEscape_def doubleQuotes_def)


lemma export_example:
  "exportCSV sampleParse sampleISO sampleNum [quotedReport] =
   Inr (''id,title,type,status,source,timestamp,lat,lng,locationName,personName,tags,description''
        @ [CHR 0x0A] @ ''r1,,flood,verified,citizen,1970-01-01T00:00:00.000Z,10,10,,,Flood|coast,''
        @ [CHR 0x22] @ ''He said '' @ [CHR 0x22, CHR 0x22] @ ''flood now'' @ [CHR 0x22, CHR 0x22, CHR 0x22])"
  by (simp add: exportCSV_def rowOf_def toISOString_def quotedReport_def reportA_def sampleReport_def
      sampleParse_def sampleISO_def sampleNum_def headers_def safe_def statusString_def
      sourceString_def csvEscape_def doubleQuotes_def)

lemma sample_default_filter:
  "filteredReports sampleParse sampleReports
     (initialFilters (Some \<lparr>min_t = 0, max_t = 86400000\<rparr>) False True) (Some 86400000) =
   sampleReports"
  by (simp add: filteredReports_def keepReport_def initialFilters_def sampleReports_def
      sample_eval below_start_def above_end_def after_cursor_def tagsPass_empty)

text \<open>
  C2 (the code departs from the claim). No core operation should throw on a report with a
  malformed timestamp. The scan of the temporal domain skips the malformed report and
  the filter keeps it under the default filters, without error; but the CSV export
  converts the date of every filtered report with \<^verbatim>\<open>toISOString\<close>, which throws on an
  invalid date: for the three sample reports, the third of which has the timestamp
  \<^verbatim>\<open>invalid\<close>, the export ends in a \<^verbatim>\<open>RangeError\<close> and produces no row.
\<close>

theorem malformed_timestamp_export_throws:
  "sampleParse (timestamp reportC) = None \<and>
   timeDomain sampleParse sampleReports = Some \<lparr>min_t = 0, max_t = 86400000\<rparr> \<and>
   filteredReports sampleParse sampleReports
     (initialFilters (Some \<lparr>min_t = 0, max_t = 86400000\<rparr>) False True) (Some 86400000) =
     sampleReports \<and>
   exportCSV sampleParse sampleISO sampleNum sampleReports = Inl RangeError"
proof -
  have "timeDomain sampleParse sampleReports = Some \<lparr>min_t = 0, max_t = 86400000\<rparr>"
    by (simp add: timeDomain_def sampleReports_def domainStep_def sample_eval)
  moreover have "exportCSV sampleParse sampleISO sampleNum sampleReports = Inl RangeError"
    by (rule exportCSV_invalid) (simp add: sampleReports_def sample_eval)
  ultimately show ?thesis by (simp add: sample_eval sample_default_filter)
qed

text \<open>
  C9 (the code departs from the claim). The export should emit one row per filtered
  report, in the column order id, title, type, status, source, timestamp, lat, lng,
  locationName, personName, tags, description, with every field that holds a comma, a
  double quote or a newline quoted and its quotes doubled. A report whose description
  is \<^verbatim>\<open>He said "flood now"\<close> exported alone gives the header and that row, the
  description quoted as claimed; the same report followed by one whose timestamp does
  not parse gives no row at all, the export ending in a \<^verbatim>\<open>RangeError\<close>. For sequences
  whose timestamps all parse, \<open>exportCSV_valid\<close>, \<open>csvEscape_quoted\<close> and
  \<open>csvEscape_plain\<close> above give the claimed rows.
\<close>

theorem csv_rows_lost_on_malformed_timestamp:
  "exportCSV sampleParse sampleISO sampleNum [quotedReport] =
   Inr (''id,title,type,status,source,timestamp,lat,lng,locationName,personName,tags,description''
        @ [CHR 0x0A] @ ''r1,,flood,verified,citizen,1970-01-01T00:00:00.000Z,10,10,,,Flood|coast,''
        @ [CHR 0x22] @ ''He said '' @ [CHR 0x22, CHR 0x22] @ ''flood now'' @ [CHR 0x22, CHR 0x22, CHR 0x22]) \<and>
   exportCSV sampleParse sampleISO sampleNum [quotedReport, reportC] = Inl RangeError"
proof -
  have "exportCSV sampleParse sampleISO sampleNum [quotedReport, reportC] = Inl RangeError"
    by (rule exportCSV_invalid) (simp add: sample_eval)
  with export_example show ?thesis by simp
qed


section \<open>Properties of the spatial bucketing\<close>

lemma sum_mset_no_key:
  "a \<notin> set ks \<Longrightarrow> (\<Sum>k\<leftarrow>ks. if a = k then m else ({#} :: 'a multiset)) = {#}"
  by (induction ks) auto

lemma sum_mset_single_key:
  "distinct ks \<Longrightarrow> a \<in> set ks \<Longrightarrow> (\<Sum>k\<leftarrow>ks. if a = k then m else ({#} :: 'a multiset)) = m"
  by (induction ks) (auto simp: sum_mset_no_key)

lemma mset_concat_map: "mset (concat (map h ks)) = (\<Sum>k\<leftarrow>ks. mset (h k))"
  by (induction ks) auto

lemma partition_by_key:
  "distinct ks \<Longrightarrow> f ` set rs \<subseteq> set ks \<Longrightarrow>
     (\<Sum>k\<leftarrow>ks. mset (filter (\<lambda>r. f r = k) rs)) = mset rs"
proof (induction rs)
  case Nil
  then show ?case by (simp add: sum_list_0)
next
  case (Cons r rs)
  have "(\<Sum>k\<leftarrow>ks. mset (filter (\<lambda>x. f x = k) (r # rs))) =
        (\<Sum>k\<leftarrow>ks. (if f r = k then {#r#} else {#}) + mset (filter (\<lambda>x. f x = k) rs))"
    by (rule arg_cong[where f = sum_list], rule map_cong) auto
  also have "\<dots> = (\<Sum>k\<leftarrow>ks. if f r = k then {#r#} else {#}) +
                   (\<Sum>k\<leftarrow>ks. mset (filter (\<lambda>x. f x = k) rs))"
    by (simp add: sum_list_addf)
  also have "\<dots> = {#r#} + mset rs"
    using Cons by (simp add: sum_mset_single_key)
  finally show ?case by simp
qed

lemma alist_of_map_of:
  assumes "distinct (map fst B)" "\<And>k b. map_of B k = Some b \<Longrightarrow> b = F k"
  shows "B = map (\<lambda>k. (k, F k)) (map fst B)"
proof -
  have "\<forall>p\<in>set B. p = (fst p, F (fst p))"
  proof
    fix p assume "p \<in> set B"
    with assms(1) have "map_of B (fst p) = Some (snd p)"
      by (metis map_of_is_SomeI prod.collapse)
    from assms(2)[OF this] show "p = (fst p, F (fst p))"
      by (metis prod.collapse)
  qed
  then have "map (\<lambda>p. (fst p, F (fst p))) B = B" by (simp add: map_idI)
  then show ?thesis by (simp add: comp_def)
qed

lemma alist_values:
  assumes "distinct (map fst B)" "\<And>k b. map_of B k = Some b \<Longrightarrow> b = F k"
  shows "map snd B = map F (map fst B)"
proof -
  have "\<forall>p\<in>set B. snd p = F (fst p)"
  proof
    fix p assume "p \<in> set B"
    with assms(1) have "map_of B (fst p) = Some (snd p)"
      by (metis map_of_is_SomeI prod.collapse)
    from assms(2)[OF this] show "snd p = F (fst p)" .
  qed
  then show ?thesis by simp
qed

lemma cluster_distinct: "distinct (map fst (foldl (clusterAdd g) [] rs))"
  by (induction rs rule: rev_induct)
     (simp_all add: clusterAdd_def Let_def distinct_update split: option.splits)

lemma filter_cell_empty: "k \<notin> cellOf g ` set rs \<Longrightarrow> filter (\<lambda>r. cellOf g r = k) rs = []"
  by (auto simp: filter_empty_conv)

lemma cluster_map_of:
  "map_of (foldl (clusterAdd g) [] rs) k =
     (if k \<in> cellOf g ` set rs then Some (cellBucket g rs k) else None)"
proof (induction rs arbitrary: k rule: rev_induct)
  case Nil
  then show ?case by simp
next
  case (snoc x xs)
  let ?B = "foldl (clusterAdd g) [] xs"
  let ?key = "cellOf g x"
  show ?case
  proof (cases "map_of ?B ?key")
    case None
    then have nk: "?key \<notin> cellOf g ` set xs" using snoc[of ?key] by (auto split: if_splits)
    have step: "clusterAdd g ?B x =
        AList.update ?key \<lparr>cb_lat = (real_of_int (snd ?key) + 0.5) * g,
          cb_lng = (real_of_int (fst ?key) + 0.5) * g, items = [x]\<rparr> ?B"
      using None by (simp add: clusterAdd_def Let_def)
    show ?thesis
    proof (cases "k = ?key")
      case True
      then show ?thesis using nk
        by (simp add: step update_conv' cellBucket_def filter_cell_empty)
    next
      case False
      then have "filter (\<lambda>r. cellOf g r = k) (xs @ [x]) = filter (\<lambda>r. cellOf g r = k) xs"
        by auto
      then show ?thesis using False snoc[of k]
        by (auto simp: step update_conv' cellBucket_def)
    qed
  next
    case (Some b)
    then have ik: "?key \<in> cellOf g ` set xs" and b: "b = cellBucket g xs ?key"
      using snoc[of ?key] by (auto split: if_splits)
    have step: "clusterAdd g ?B x =
        AList.update ?key (b\<lparr>items := items b @ [x]\<rparr>) ?B"
      using Some by (simp add: clusterAdd_def Let_def)
    show ?thesis
    proof (cases "k = ?key")
      case True
      then show ?thesis
        by (simp add: step update_conv' b cellBucket_def)
    next
      case False
      then have "filter (\<lambda>r. cellOf g r = k) (xs @ [x]) = filter (\<lambda>r. cellOf g r = k) xs"
        by auto
      then show ?thesis using False snoc[of k]
        by (auto simp: step update_conv' cellBucket_def)
    qed
  qed
qed

lemma cluster_keys: "fst ` set (foldl (clusterAdd g) [] rs) = cellOf g ` set rs"
proof -
  have "fst ` set (foldl (clusterAdd g) [] rs) = dom (map_of (foldl (clusterAdd g) [] rs))"
    by (simp add: dom_map_of_conv_image_fst)
  also have "\<dots> = cellOf g ` set rs"
    by (auto simp: dom_def cluster_map_of)
  finally show ?thesis .
qed

lemma cluster_buckets_eq:
  "foldl (clusterAdd g) [] rs =
     map (\<lambda>k. (k, cellBucket g rs k)) (map fst (foldl (clusterAdd g) [] rs))"
proof (rule alist_of_map_of[OF cluster_distinct])
  fix k b assume "map_of (foldl (clusterAdd g) [] rs) k = Some b"
  then show "b = cellBucket g rs k" by (simp add: cluster_map_of split: if_splits)
qed

lemma cluster_members_mset:
  "mset (concat (map (\<lambda>p. items (snd p)) (foldl (clusterAdd g) [] rs))) = mset rs"
proof -
  let ?B = "foldl (clusterAdd g) [] rs"
  let ?ks = "map fst ?B"
  have "map (\<lambda>p. items (snd p)) ?B =
        map (\<lambda>p. items (snd p)) (map (\<lambda>k. (k, cellBucket g rs k)) ?ks)"
    by (rule arg_cong[where f = "map (\<lambda>p. items (snd p))"]) (rule cluster_buckets_eq)
  also have "\<dots> = map (\<lambda>k. filter (\<lambda>r. cellOf g r = k) rs) ?ks"
    by (simp add: comp_def cellBucket_def)
  finally have e: "map (\<lambda>p. items (snd p)) ?B = map (\<lambda>k. filter (\<lambda>r. cellOf g r = k) rs) ?ks" .
  have "mset (concat (map (\<lambda>p. items (snd p)) ?B)) =
      (\<Sum>k\<leftarrow>?ks. mset (filter (\<lambda>r. cellOf g r = k) rs))"
    unfolding e by (rule mset_concat_map)
  also have "\<dots> = mset rs"
    by (rule partition_by_key[OF cluster_distinct]) (simp add: cluster_keys)
  finally show ?thesis .
qed

lemma markerCount_markerOf: "markerCount (markerOf b) = length (items b)"
  by (simp add: markerOf_def Let_def split: list.splits)

lemma marker_counts_sum:
  "sum_list (map markerCount (map markerOf (map snd B))) = length (concat (map (\<lambda>p. items (snd p)) B))"
  by (induction B) (simp_all add: markerCount_markerOf)

lemma heat_distinct: "distinct (map fst (foldl (heatAdd g) [] rs))"
  by (induction rs rule: rev_induct)
     (simp_all add: heatAdd_def Let_def distinct_update split: option.splits)

lemma cellCount_zero: "k \<notin> cellOf g ` set rs \<Longrightarrow> cellCount g rs k = 0"
  by (simp add: cellCount_def filter_cell_empty)

lemma cellCount_pos: "k \<in> cellOf g ` set rs \<Longrightarrow> 0 < cellCount g rs k"
  by (auto simp: cellCount_def filter_empty_conv)

lemma cellCount_snoc:
  "cellCount g (xs @ [x]) k = (if cellOf g x = k then Suc (cellCount g xs k) else cellCount g xs k)"
  by (simp add: cellCount_def)

lemma heat_map_of:
  "map_of (foldl (heatAdd g) [] rs) k =
     (if k \<in> cellOf g ` set rs then Some (heatBucket g rs k) else None)"
proof (induction rs arbitrary: k rule: rev_induct)
  case Nil
  then show ?case by simp
next
  case (snoc x xs)
  let ?B = "foldl (heatAdd g) [] xs"
  let ?key = "cellOf g x"
  show ?case
  proof (cases "map_of ?B ?key")
    case None
    then have nk: "?key \<notin> cellOf g ` set xs" using snoc[of ?key] by (auto split: if_splits)
    have step: "heatAdd g ?B x =
        AList.update ?key \<lparr>hb_lat = (real_of_int (snd ?key) + 0.5) * g,
          hb_lng = (real_of_int (fst ?key) + 0.5) * g, hb_count = 1\<rparr> ?B"
      using None by (simp add: heatAdd_def Let_def)
    show ?thesis
    proof (cases "k = ?key")
      case True
      then show ?thesis using nk
        by (simp add: step update_conv' heatBucket_def cellCount_snoc cellCount_zero)
    next
      case False
      then show ?thesis using snoc[of k]
        by (auto simp: step update_conv' heatBucket_def cellCount_snoc)
    qed
  next
    case (Some b)
    then have ik: "?key \<in> cellOf g ` set xs" and b: "b = heatBucket g xs ?key"
      using snoc[of ?key] by (auto split: if_splits)
    have step: "heatAdd g ?B x = AList.update ?key (b\<lparr>hb_count := hb_count b + 1\<rparr>) ?B"
      using Some by (simp add: heatAdd_def Let_def)
    show ?thesis
    proof (cases "k = ?key")
      case True
      then show ?thesis
        by (simp add: step update_conv' b heatBucket_def cellCount_snoc)
    next
      case False
      then show ?thesis using snoc[of k]
        by (auto simp: step update_conv' heatBucket_def cellCount_snoc)
    qed
  qed
qed

lemma heat_keys: "fst ` set (foldl (heatAdd g) [] rs) = cellOf g ` set rs"
proof -
  have "fst ` set (foldl (heatAdd g) [] rs) = dom (map_of (foldl (heatAdd g) [] rs))"
    by (simp add: dom_map_of_conv_image_fst)
  also have "\<dots> = cellOf g ` set rs"
    by (auto simp: dom_def heat_map_of)
  finally show ?thesis .
qed

lemma heat_values:
  "map snd (foldl (heatAdd g) [] rs) = map (heatBucket g rs) (map fst (foldl (heatAdd g) [] rs))"
proof (rule alist_values[OF heat_distinct])
  fix k b assume "map_of (foldl (heatAdd g) [] rs) k = Some b"
  then show "b = heatBucket g rs k" by (simp add: heat_map_of split: if_splits)
qed

lemma foldl_max: "foldl (\<lambda>m b. max m (c b)) (a::nat) bs = Max (insert a (c ` set bs))"
proof (induction bs arbitrary: a)
  case Nil
  then show ?case by simp
next
  case (Cons b bs)
  have "Max (insert (max a (c b)) (c ` set bs)) = Max (insert a (insert (c b) (c ` set bs)))"
    by (cases "c ` set bs = {}") (simp_all add: max.assoc)
  with Cons show ?case by simp
qed

lemma Max_insert_zero: "finite S \<Longrightarrow> S \<noteq> {} \<Longrightarrow> Max (insert (0::nat) S) = Max S"
  by simp

lemma heat_counts:
  "hb_count ` set (map snd (foldl (heatAdd g) [] rs)) = cellCount g rs ` cellOf g ` set rs"
proof -
  let ?B = "foldl (heatAdd g) [] rs"
  have "hb_count ` set (map snd ?B) = hb_count ` set (map (heatBucket g rs) (map fst ?B))"
    by (simp only: heat_values)
  also have "\<dots> = (\<lambda>k. hb_count (heatBucket g rs k)) ` fst ` set ?B"
    by (simp only: set_map image_image)
  also have "\<dots> = (\<lambda>k. hb_count (heatBucket g rs k)) ` cellOf g ` set rs"
    by (simp only: heat_keys)
  also have "(\<lambda>k. hb_count (heatBucket g rs k)) = cellCount g rs"
    by (rule ext) (simp add: heatBucket_def)
  finally show ?thesis .
qed

lemma cells_nonempty:
  assumes "rs \<noteq> []"
  shows "finite (cellCount g rs ` cellOf g ` set rs)" "cellCount g rs ` cellOf g ` set rs \<noteq> {}"
proof -
  show "finite (cellCount g rs ` cellOf g ` set rs)" by (intro finite_imageI finite_set)
  from assms obtain r where "r \<in> set rs" by (cases rs) auto
  then have "cellCount g rs (cellOf g r) \<in> cellCount g rs ` cellOf g ` set rs"
    by (intro imageI)
  then show "cellCount g rs ` cellOf g ` set rs \<noteq> {}" by (metis empty_iff)
qed

lemma heat_max:
  assumes "rs \<noteq> []"
  shows "foldl (\<lambda>m b. max m (hb_count b)) 0 (map snd (foldl (heatAdd g) [] rs)) =
           Max (cellCount g rs ` cellOf g ` set rs)"
proof -
  let ?B = "foldl (heatAdd g) [] rs"
  let ?S = "cellCount g rs ` cellOf g ` set rs"
  note fin = cells_nonempty(1)[OF assms, of g] and ne = cells_nonempty(2)[OF assms, of g]
  have "foldl (\<lambda>m b. max m (hb_count b)) 0 (map snd ?B) =
        Max (insert 0 (hb_count ` set (map snd ?B)))"
    by (rule foldl_max)
  also have "\<dots> = Max (insert 0 ?S)" by (simp only: heat_counts)
  also have "\<dots> = Max ?S" using fin ne by (rule Max_insert_zero)
  finally show "foldl (\<lambda>m b. max m (hb_count b)) 0 (map snd ?B) = Max ?S" .
qed

lemma heat_max_pos:
  assumes "rs \<noteq> []"
  shows "0 < Max (cellCount g rs ` cellOf g ` set rs)"
proof -
  let ?S = "cellCount g rs ` cellOf g ` set rs"
  note fin = cells_nonempty(1)[OF assms, of g] and ne = cells_nonempty(2)[OF assms, of g]
  from assms obtain r where r: "r \<in> set rs" by (cases rs) auto
  have "0 < cellCount g rs (cellOf g r)" using r by (intro cellCount_pos imageI)
  moreover have "cellCount g rs (cellOf g r) \<le> Max ?S"
    using fin r by (intro Max_ge imageI)
  ultimately show "0 < Max ?S" by linarith
qed

lemma heatPoints_eq:
  assumes "rs \<noteq> []"
  shows "heatPoints True rs = map (heatPointOf 0.25 rs) (map fst (foldl (heatAdd 0.25) [] rs))"
proof -
  let ?B = "foldl (heatAdd 0.25) [] rs"
  let ?M = "Max (cellCount 0.25 rs ` cellOf 0.25 ` set rs)"
  let ?mx = "foldl (\<lambda>m b. max m (hb_count b)) 0 (map snd ?B)"
  have mx: "?mx = ?M" by (rule heat_max[OF assms])
  have pos: "?M \<noteq> 0" using heat_max_pos[OF assms, of "0.25"] by simp
  have "heatPoints True rs =
      (if ?mx = 0 then []
       else map (\<lambda>b. \<lparr>hp_lat = hb_lat b, hp_lng = hb_lng b, weight = real (hb_count b) / real ?mx\<rparr>)
        (map snd ?B))"
    unfolding heatPoints_def Let_def by simp
  also have "\<dots> = map (\<lambda>b. \<lparr>hp_lat = hb_lat b, hp_lng = hb_lng b, weight = real (hb_count b) / real ?M\<rparr>)
        (map snd ?B)"
    unfolding mx using pos by (simp only: if_False)
  also have "\<dots> = map (\<lambda>b. \<lparr>hp_lat = hb_lat b, hp_lng = hb_lng b, weight = real (hb_count b) / real ?M\<rparr>)
        (map (heatBucket 0.25 rs) (map fst ?B))"
    by (simp only: heat_values)
  also have "\<dots> = map (heatPointOf 0.25 rs) (map fst ?B)"
    unfolding map_map by (rule map_cong[OF refl]) (simp add: heatPointOf_def heatBucket_def)
  finally show ?thesis .
qed

lemma heat_weights:
  assumes "rs \<noteq> []" "k \<in> cellOf g ` set rs"
  shows "0 < weight (heatPointOf g rs k) \<and> weight (heatPointOf g rs k) \<le> 1"
proof -
  let ?M = "Max (cellCount g rs ` cellOf g ` set rs)"
  have "cellCount g rs k \<le> ?M"
    using cells_nonempty(1)[OF assms(1), of g] assms(2) by (intro Max_ge imageI)
  moreover have "0 < cellCount g rs k" using assms(2) by (rule cellCount_pos)
  moreover have "weight (heatPointOf g rs k) = real (cellCount g rs k) / real ?M"
    unfolding heatPointOf_def by (simp only: HeatPoint.simps)
  ultimately show ?thesis by simp
qed

lemma heatPoints_set:
  assumes "rs \<noteq> []"
  shows "set (heatPoints True rs) = heatPointOf 0.25 rs ` cellOf 0.25 ` set rs"
  unfolding heatPoints_eq[OF assms] by (simp only: set_map heat_keys)

lemma heat_weight_range:
  assumes "rs \<noteq> []" "p \<in> set (heatPoints True rs)"
  shows "0 < weight p \<and> weight p \<le> 1"
proof -
  from assms(2) have "p \<in> heatPointOf 0.25 rs ` cellOf 0.25 ` set rs"
    by (simp only: heatPoints_set[OF assms(1)])
  then obtain c where c: "c \<in> cellOf 0.25 ` set rs" and p: "p = heatPointOf 0.25 rs c"
    by (rule imageE)
  show ?thesis unfolding p by (rule heat_weights[OF assms(1) c])
qed

lemma heat_weight_max:
  assumes "rs \<noteq> []"
  shows "Max (weight ` set (heatPoints True rs)) = 1"
proof (rule Max_eqI)
  show "finite (weight ` set (heatPoints True rs))" by (intro finite_imageI finite_set)
next
  fix w assume "w \<in> weight ` set (heatPoints True rs)"
  then obtain p where p: "p \<in> set (heatPoints True rs)" and w: "w = weight p" by (rule imageE)
  show "w \<le> 1" unfolding w using heat_weight_range[OF assms p] by (rule conjunct2)
next
  let ?S = "cellCount 0.25 rs ` cellOf 0.25 ` set rs"
  have "Max ?S \<in> ?S"
    using cells_nonempty[OF assms, of "0.25"] by (rule Max_in)
  then obtain k where k: "k \<in> cellOf 0.25 ` set rs" and m: "Max ?S = cellCount 0.25 rs k"
    by (rule imageE)
  have pos: "0 < Max ?S" by (rule heat_max_pos[OF assms])
  have "weight (heatPointOf 0.25 rs k) = real (cellCount 0.25 rs k) / real (Max ?S)"
    unfolding heatPointOf_def by (simp only: HeatPoint.simps)
  also have "\<dots> = 1" unfolding m[symmetric] using pos by simp
  finally have one: "weight (heatPointOf 0.25 rs k) = 1" .
  have "heatPointOf 0.25 rs k \<in> set (heatPoints True rs)"
    unfolding heatPoints_set[OF assms] using k by (rule imageI)
  then have "weight (heatPointOf 0.25 rs k) \<in> weight ` set (heatPoints True rs)" by (rule imageI)
  then show "1 \<in> weight ` set (heatPoints True rs)" unfolding one .
qed

text \<open>
  C7. With the heatmap switched off, or with no filtered report, no point is emitted.
  For a non-empty filtered sequence with the heatmap on, the points are, one for each
  grid cell of 0.25 degrees that holds a report and for no other cell, the centre
  \<open>((gx + 0.5) * 0.25, (gy + 0.5) * 0.25)\<close> of the cell with the weight
  \<open>count / max\<close>, where \<open>count\<close> is the number of filtered reports in the cell and
  \<open>max\<close> the largest such number over all cells; every weight is positive and at most
  \<open>1\<close>, and the largest weight is exactly \<open>1\<close>.
\<close>

theorem heat_points_normalised:
  "heatPoints False filtered = [] \<and> heatPoints True [] = [] \<and>
   (filtered \<noteq> [] \<longrightarrow>
      (\<exists>cells. distinct cells \<and> set cells = cellOf 0.25 ` set filtered \<and>
         heatPoints True filtered =
           map (\<lambda>k. \<lparr>hp_lat = (real_of_int (snd k) + 0.5) * 0.25,
                       hp_lng = (real_of_int (fst k) + 0.5) * 0.25,
                       weight = real (length (filter (\<lambda>r. cellOf 0.25 r = k) filtered)) /
                                real (Max ((\<lambda>c. length (filter (\<lambda>r. cellOf 0.25 r = c) filtered)) `
                                           cellOf 0.25 ` set filtered))\<rparr>)
               cells) \<and>
      (\<forall>p\<in>set (heatPoints True filtered). 0 < weight p \<and> weight p \<le> 1) \<and>
      Max (weight ` set (heatPoints True filtered)) = 1)"
proof (intro conjI impI)
  show "heatPoints False filtered = []" by (simp add: heatPoints_def)
  show "heatPoints True [] = []" by (simp add: heatPoints_def)
next
  assume ne: "filtered \<noteq> []"
  let ?ks = "map fst (foldl (heatAdd 0.25) [] filtered)"
  have cc: "cellCount 0.25 filtered = (\<lambda>c. length (filter (\<lambda>r. cellOf 0.25 r = c) filtered))"
    by (rule ext) (simp only: cellCount_def)
  have fn: "heatPointOf 0.25 filtered = (\<lambda>k. \<lparr>hp_lat = (real_of_int (snd k) + 0.5) * 0.25,
                       hp_lng = (real_of_int (fst k) + 0.5) * 0.25,
                       weight = real (length (filter (\<lambda>r. cellOf 0.25 r = k) filtered)) /
                                real (Max ((\<lambda>c. length (filter (\<lambda>r. cellOf 0.25 r = c) filtered)) `
                                           cellOf 0.25 ` set filtered))\<rparr>)"
    by (rule ext) (simp only: heatPointOf_def cc)
  have "distinct ?ks" by (rule heat_distinct)
  moreover have "set ?ks = cellOf 0.25 ` set filtered" by (simp only: set_map heat_keys)
  moreover have "heatPoints True filtered = map (heatPointOf 0.25 filtered) ?ks"
    by (rule heatPoints_eq[OF ne])
  ultimately show "\<exists>cells. distinct cells \<and> set cells = cellOf 0.25 ` set filtered \<and>
         heatPoints True filtered =
           map (\<lambda>k. \<lparr>hp_lat = (real_of_int (snd k) + 0.5) * 0.25,
                       hp_lng = (real_of_int (fst k) + 0.5) * 0.25,
                       weight = real (length (filter (\<lambda>r. cellOf 0.25 r = k) filtered)) /
                                real (Max ((\<lambda>c. length (filter (\<lambda>r. cellOf 0.25 r = c) filtered)) `
                                           cellOf 0.25 ` set filtered))\<rparr>)
               cells"
    unfolding fn by (intro exI[of _ ?ks] conjI)
next
  assume ne: "filtered \<noteq> []"
  show "\<forall>p\<in>set (heatPoints True filtered). 0 < weight p \<and> weight p \<le> 1"
    by (intro ballI heat_weight_range[OF ne])
next
  assume ne: "filtered \<noteq> []"
  show "Max (weight ` set (heatPoints True filtered)) = 1" by (rule heat_weight_max[OF ne])
qed

lemma heat_sample:
  "heatPoints True sampleReports =
     [\<lparr>hp_lat = 10.125, hp_lng = 10.125, weight = 1\<rparr>,
      \<lparr>hp_lat = 50.125, hp_lng = 50.125, weight = 1 / 2\<rparr>]"
  by (simp add: heatPoints_def heatAdd_def cellOf_def sampleReports_def reportA_def reportB_def
      reportC_def sampleReport_def Let_def)

text \<open>
  The three sample reports fall into two heat cells: two reports in the cell centred at
  \<open>(10.125, 10.125)\<close>, weight \<open>1\<close>, and one in the cell centred at \<open>(50.125, 50.125)\<close>,
  weight \<open>1 / 2\<close>.
\<close>

theorem heat_points_normalised_witness:
  "sampleReports \<noteq> [] \<and>
   heatPoints True sampleReports =
     [\<lparr>hp_lat = 10.125, hp_lng = 10.125, weight = 1\<rparr>,
      \<lparr>hp_lat = 50.125, hp_lng = 50.125, weight = 1 / 2\<rparr>] \<and>
   Max (weight ` set (heatPoints True sampleReports)) = 1 \<and>
   heatPoints False sampleReports = []"
proof -
  have ne: "sampleReports \<noteq> []" by (simp add: sampleReports_def)
  from heat_points_normalised [of sampleReports] ne heat_sample
  show ?thesis by simp
qed

lemma cluster_items:
  assumes "p \<in> set (foldl (clusterAdd g) [] rs)"
  shows "snd p = cellBucket g rs (fst p)" "fst p \<in> cellOf g ` set rs"
proof -
  from assms cluster_distinct[of g rs]
  have m: "map_of (foldl (clusterAdd g) [] rs) (fst p) = Some (snd p)"
    by (metis map_of_is_SomeI prod.collapse)
  then show "fst p \<in> cellOf g ` set rs"
    unfolding cluster_map_of by (simp split: if_splits)
  with m show "snd p = cellBucket g rs (fst p)"
    unfolding cluster_map_of by simp
qed

lemma cell_items_nonempty:
  assumes "k \<in> cellOf g ` set rs"
  shows "filter (\<lambda>r. cellOf g r = k) rs \<noteq> []"
proof -
  from assms obtain r where "r \<in> set rs" "cellOf g r = k" by auto
  then show ?thesis by (auto simp: filter_empty_conv)
qed

text \<open>
  C5. The cluster bucketing (cells of 0.06 degrees, key \<open>(floor (lng / 0.06),
  floor (lat / 0.06))\<close>) is a partition of the filtered reports: no two buckets have the
  same cell, the cells of the buckets are the cells of the reports, the membership list
  of a bucket is not empty and holds exactly the reports of its cell in their order, so
  the membership lists together hold every report exactly once; and the counts of the
  markers drawn (one for an individual marker, the member count for a cluster marker),
  one marker per bucket, add up to the number of filtered reports.
\<close>

theorem cluster_partition:
  "distinct (map fst (clusterBuckets reports)) \<and>
   fst ` set (clusterBuckets reports) = cellOf 0.06 ` set reports \<and>
   (\<forall>p\<in>set (clusterBuckets reports).
      items (snd p) = filter (\<lambda>r. cellOf 0.06 r = fst p) reports \<and> items (snd p) \<noteq> []) \<and>
   mset (concat (map (\<lambda>p. items (snd p)) (clusterBuckets reports))) = mset reports \<and>
   (\<exists>markers. renderClusteredMarkers True reports = Some markers \<and>
      length markers = length (clusterBuckets reports) \<and>
      sum_list (map markerCount markers) = length reports)"
proof (intro conjI)
  show "distinct (map fst (clusterBuckets reports))"
    unfolding clusterBuckets_def by (rule cluster_distinct)
  show "fst ` set (clusterBuckets reports) = cellOf 0.06 ` set reports"
    unfolding clusterBuckets_def by (rule cluster_keys)
  show "\<forall>p\<in>set (clusterBuckets reports).
      items (snd p) = filter (\<lambda>r. cellOf 0.06 r = fst p) reports \<and> items (snd p) \<noteq> []"
  proof
    fix p assume "p \<in> set (clusterBuckets reports)"
    then have p: "p \<in> set (foldl (clusterAdd 0.06) [] reports)" by (simp only: clusterBuckets_def)
    have a: "items (snd p) = filter (\<lambda>r. cellOf 0.06 r = fst p) reports"
      unfolding cluster_items(1)[OF p] cellBucket_def by simp
    have "filter (\<lambda>r. cellOf 0.06 r = fst p) reports \<noteq> []"
      by (rule cell_items_nonempty[OF cluster_items(2)[OF p]])
    with a show "items (snd p) = filter (\<lambda>r. cellOf 0.06 r = fst p) reports \<and> items (snd p) \<noteq> []"
      by simp
  qed
  show m: "mset (concat (map (\<lambda>p. items (snd p)) (clusterBuckets reports))) = mset reports"
    unfolding clusterBuckets_def by (rule cluster_members_mset)
  let ?ms = "map markerOf (map snd (clusterBuckets reports))"
  have "sum_list (map markerCount ?ms) =
        length (concat (map (\<lambda>p. items (snd p)) (clusterBuckets reports)))"
    by (rule marker_counts_sum)
  also have "\<dots> = size (mset (concat (map (\<lambda>p. items (snd p)) (clusterBuckets reports))))"
    by (simp only: size_mset)
  also have "\<dots> = length reports" unfolding m by (simp only: size_mset)
  finally have s: "sum_list (map markerCount ?ms) = length reports" .
  have r: "renderClusteredMarkers True reports = Some ?ms"
    by (simp add: renderClusteredMarkers_def)
  have l: "length ?ms = length (clusterBuckets reports)" by simp
  from r l s show "\<exists>markers. renderClusteredMarkers True reports = Some markers \<and>
      length markers = length (clusterBuckets reports) \<and>
      sum_list (map markerCount markers) = length reports"
    by (intro exI[of _ ?ms] conjI)
qed

lemma cluster_sample:
  "clusterBuckets sampleReports =
     [((166, 166), \<lparr>cb_lat = 9.99, cb_lng = 9.99, items = [reportA, reportB]\<rparr>),
      ((833, 833), \<lparr>cb_lat = 50.01, cb_lng = 50.01, items = [reportC]\<rparr>)]"
  by (simp add: clusterBuckets_def clusterAdd_def cellOf_def sampleReports_def reportA_def
      reportB_def reportC_def sampleReport_def Let_def)

lemma markers_sample:
  "renderClusteredMarkers True sampleReports =
     Some [ClusterMarker 9.99 9.99 2 26 ''#f59e0b'' [reportA, reportB], IndividualMarker reportC]"
proof -
  have st: "status reportA = verified" "status reportB = unverified"
    by (simp_all add: reportA_def reportB_def sampleReport_def)
  have "dominantStatusIn [reportA, reportB] = unverified"
    by (simp add: dominantStatusIn_def countStatuses_def statusKeys_def st)
  then show ?thesis
    by (simp add: renderClusteredMarkers_def cluster_sample markerOf_def statusToColor_def)
qed

text \<open>
  The reports at \<open>(10, 10)\<close> and \<open>(10.01, 10.01)\<close> share the cell \<open>(166, 166)\<close> and are
  drawn as one cluster marker of count 2; the report at \<open>(50, 50)\<close> is alone in its cell
  and is drawn as an individual marker.
\<close>

theorem cluster_partition_witness:
  "clusterBuckets sampleReports =
     [((166, 166), \<lparr>cb_lat = 9.99, cb_lng = 9.99, items = [reportA, reportB]\<rparr>),
      ((833, 833), \<lparr>cb_lat = 50.01, cb_lng = 50.01, items = [reportC]\<rparr>)] \<and>
   renderClusteredMarkers True sampleReports =
     Some [ClusterMarker 9.99 9.99 2 26 ''#f59e0b'' [reportA, reportB], IndividualMarker reportC] \<and>
   mset (concat (map (\<lambda>p. items (snd p)) (clusterBuckets sampleReports))) = mset sampleReports \<and>
   sum_list (map markerCount
     [ClusterMarker 9.99 9.99 2 26 ''#f59e0b'' [reportA, reportB], IndividualMarker reportC]) =
     length sampleReports"
proof -
  note t = cluster_partition [of sampleReports]
  from t have m: "mset (concat (map (\<lambda>p. items (snd p)) (clusterBuckets sampleReports))) =
      mset sampleReports" by blast
  from t obtain ms where ms: "renderClusteredMarkers True sampleReports = Some ms"
    and sm: "sum_list (map markerCount ms) = length sampleReports" by blast
  from ms markers_sample
  have "ms = [ClusterMarker 9.99 9.99 2 26 ''#f59e0b'' [reportA, reportB], IndividualMarker reportC]"
    by simp
  with sm have s: "sum_list (map markerCount
     [ClusterMarker 9.99 9.99 2 26 ''#f59e0b'' [reportA, reportB], IndividualMarker reportC]) =
     length sampleReports" by simp
  from cluster_sample markers_sample m s show ?thesis by (intro conjI)
qed


end
